theory Spec2Isabelle
  imports Complex_Main "HOL-Library.Sublist" "HOL-Library.Multiset"
    "HOL-Library.List_Lexorder" "HOL-Library.Char_ord" "HOL-Library.Product_Lexorder"
begin

section \<open>Values shared by the node connection and the patch store\<close>

text \<open>
  A call either returns a value or throws. The adapter operations and the store operations
  are asynchronous; a promise that rejects is the \<open>Threw\<close> case of the awaiting caller.
\<close>

datatype 'a outcome = Returned 'a | Threw string

text \<open>
  \<open>Result<Data>\<close> of \<open>types/node.ts\<close> is an object with the optional properties
  \<open>data\<close> and \<open>error\<close>. The record keeps both properties optional, as the objects
  built at run time are (\<open>{ data: ... }\<close>, \<open>{ error: ... }\<close>, \<open>{}\<close>); an \<open>Error\<close>
  is kept as its message.
\<close>

record 'a result =
  data :: "'a option"
  error :: "string option"

definition dataResult :: "'a \<Rightarrow> 'a result" where
  "dataResult d = \<lparr>data = Some d, error = None\<rparr>"

definition errorResult :: "string \<Rightarrow> 'a result" where
  "errorResult e = \<lparr>data = None, error = Some e\<rparr>"

definition emptyResult :: "'a result" where
  "emptyResult = \<lparr>data = None, error = None\<rparr>"


section \<open>Patches and revisions\<close>

datatype patchStatus = Draft | Open | Archived | Merged

record revision =
  timestamp :: int
  revisionAuthor :: string
  description :: string
  base :: string
  oid :: string

text \<open>The property \<open>id\<close> of a patch is the field \<open>patchId\<close>.\<close>

record patch =
  patchId :: string
  title :: string
  author :: string
  labels :: "string list"
  status :: patchStatus
  revisions :: "revision list"

text \<open>
  \<open>AugmentedPatch\<close>: a patch with the client-side freshness marker; its property
  \<open>lastFetchedTs\<close> is the field \<open>patchLastFetchedTs\<close>, since the store has a
  \<open>lastFetchedTs\<close> of its own. \<open>augment nowTs p\<close> is the object literal
  \<open>{ ...fetchedPatch, ...{ lastFetchedTs: nowTs } }\<close>.
\<close>

record augmentedPatch = patch +
  patchLastFetchedTs :: rat

definition augment :: "rat \<Rightarrow> patch \<Rightarrow> augmentedPatch" where
  "augment nowTs p =
     \<lparr>patchId = patchId p, title = title p, author = author p, labels = labels p,
      status = status p, revisions = revisions p, patchLastFetchedTs = nowTs\<rparr>"

text \<open>The properties of a cached object that come from the fetched patch.\<close>

definition patchOf :: "augmentedPatch \<Rightarrow> patch" where
  "patchOf a =
     \<lparr>patchId = patchId a, title = title a, author = author a, labels = labels a,
      status = status a, revisions = revisions a\<rparr>"

section \<open>Strings\<close>

text \<open>
  A character of a string stands for a UTF-16 code unit below 256.
  \<open>String.prototype.includes\<close>: the needle occurs as a contiguous run.
\<close>

fun strIncludes :: "string \<Rightarrow> string \<Rightarrow> bool" where
  "strIncludes [] needle = (needle = [])"
| "strIncludes (c # cs) needle = (prefix needle (c # cs) \<or> strIncludes cs needle)"

text \<open>Truthiness of an optional string: \<open>undefined\<close> and the empty string are falsy.\<close>

definition truthy :: "string option \<Rightarrow> bool" where
  "truthy v = (case v of None \<Rightarrow> False | Some s \<Rightarrow> s \<noteq> [])"

section \<open>The patch store\<close>

text \<open>
  Patches in the store are objects that observers hold references to, and
  \<open>refetchPatch\<close> mutates them in place. The objects live in \<open>heap\<close>, addressed by
  their index; \<open>patches\<close> is the array of references (\<open>None\<close> is \<open>undefined\<close>).
  \<open>inProgressRequest\<close> names the pending adapter promise by its index in
  \<open>adapterBatches\<close>, the log of the \<open>fetchAllPatches(rid)\<close> calls the backend adapter
  has received.
\<close>

type_synonym ref = nat

record patchStore =
  heap :: "augmentedPatch list"
  patches :: "ref list option"
  prevCheckedOutPatch :: "ref option"
  checkedOutPatchValue :: "ref option"
  lastFetchedTs :: "rat option"
  inProgressRequest :: "nat option"
  adapterBatches :: "string list"

definition findPatchById :: "patchStore \<Rightarrow> string \<Rightarrow> ref option" where
  "findPatchById st partialOrWholeId =
     (case patches st of
        None \<Rightarrow> None
      | Some refs \<Rightarrow> find (\<lambda>r. strIncludes (patchId (heap st ! r)) partialOrWholeId) refs)"

text \<open>\<open>resetAllPatches\<close> clears the cache to \<open>undefined\<close>.\<close>

definition resetAllPatches :: "patchStore \<Rightarrow> patchStore" where
  "resetAllPatches st = st\<lparr>patches := None\<rparr>"

text \<open>
  The objects the cache refers to, in cache order. In a well-formed store every cached
  reference addresses an object of the heap and no object is cached twice.
\<close>

definition cachedPatches :: "patchStore \<Rightarrow> augmentedPatch list option" where
  "cachedPatches st = map_option (map (\<lambda>r. heap st ! r)) (patches st)"

text \<open>The cached objects, none while the cache is \<open>undefined\<close>.\<close>

definition cachedObjects :: "patchStore \<Rightarrow> augmentedPatch list" where
  "cachedObjects st = (case cachedPatches st of None \<Rightarrow> [] | Some objects \<Rightarrow> objects)"

text \<open>The ids of the cached patches, in cache order.\<close>

definition cachedIds :: "patchStore \<Rightarrow> string list" where
  "cachedIds st =
     (case patches st of None \<Rightarrow> [] | Some refs \<Rightarrow> map (\<lambda>r. patchId (heap st ! r)) refs)"

text \<open>The references of the cache; none while the cache is \<open>undefined\<close>.\<close>

definition cachedRefs :: "patchStore \<Rightarrow> ref list" where
  "cachedRefs st = (case patches st of None \<Rightarrow> [] | Some refs \<Rightarrow> refs)"

definition wfStore :: "patchStore \<Rightarrow> bool" where
  "wfStore st =
     (case patches st of
        None \<Rightarrow> True
      | Some refs \<Rightarrow> list_all (\<lambda>r. r < length (heap st)) refs \<and> distinct refs)"

subsection \<open>refetchPatch\<close>

text \<open>
  \<open>refetchPatch\<close> awaits two answers of the node connection: the \<open>Result\<close> of
  \<open>getCurrentProjectId()\<close> and the \<open>Result\<close> of \<open>fetchPatch(rid, patchId)\<close>; the
  model takes them, and the clock reading \<open>Date.now() / 1000\<close>, as arguments. Reading
  \<open>fetchedPatch.id\<close> of a response with neither \<open>data\<close> nor \<open>error\<close> is a
  \<open>TypeError\<close>. \<open>Object.assign(outdatedPatch, augmentedFetchedPatch)\<close> overwrites the
  object at the found address; \<open>push\<close> allocates a new object behind the heap and appends
  its reference.
\<close>

definition refetchPatch ::
  "string result \<Rightarrow> rat \<Rightarrow> patch result \<Rightarrow> patchStore \<Rightarrow> unit result outcome \<times> patchStore" where
  "refetchPatch ridResult nowTs fetchResult st =
     (if \<not> truthy (data ridResult) then (Returned (errorResult ''Failed resolving RID''), st)
      else case error fetchResult of
        Some e \<Rightarrow> (Returned (errorResult e), st)
      | None \<Rightarrow>
         (case data fetchResult of
            None \<Rightarrow> (Threw ''TypeError'', st)
          | Some fetchedPatch \<Rightarrow>
             (let outdatedPatch = findPatchById st (patchId fetchedPatch);
                  augmentedFetchedPatch = augment nowTs fetchedPatch
              in case outdatedPatch of
                   Some r \<Rightarrow>
                     (Returned emptyResult, st\<lparr>heap := (heap st)[r := augmentedFetchedPatch]\<rparr>)
                 | None \<Rightarrow>
                     (Returned emptyResult,
                      st\<lparr>heap := heap st @ [augmentedFetchedPatch],
                         patches := Some ((case patches st of None \<Rightarrow> [] | Some refs \<Rightarrow> refs)
                                          @ [length (heap st)])\<rparr>))))"

subsection \<open>fetchAllPatches\<close>

text \<open>
  \<open>fetchAllPatches\<close> suspends at one \<open>await\<close>. \<open>fetchAllPatches_begin\<close> is the
  synchronous part up to it and answers the task that is left: finished with a boolean,
  waiting for the request already in progress, or waiting for the responses of the batch
  it has just issued (with its \<open>nowTs\<close>). Its arguments are what
  \<open>memoizedGetCurrentProjectId()\<close> and \<open>Date.now() / 1000\<close> give when they are
  evaluated.
\<close>

datatype fetchAllTask = Done bool | AwaitInProgress nat | AwaitResponses nat rat

definition fetchAllPatches_begin ::
  "string option \<Rightarrow> rat \<Rightarrow> patchStore \<Rightarrow> fetchAllTask \<times> patchStore" where
  "fetchAllPatches_begin rid nowTs st =
     (case inProgressRequest st of
        Some p \<Rightarrow> (AwaitInProgress p, st)
      | None \<Rightarrow>
         (case rid of
            None \<Rightarrow> (Done False, st)
          | Some r \<Rightarrow>
             if r = [] then (Done False, st)
             else (let p = length (adapterBatches st)
                   in (AwaitResponses p nowTs,
                       st\<lparr>lastFetchedTs := Some nowTs,
                          adapterBatches := adapterBatches st @ [r],
                          inProgressRequest := Some p\<rparr>))))"

text \<open>The \<open>finally\<close> callback, run when the adapter's promise settles.\<close>

definition promiseSettled :: "patchStore \<Rightarrow> patchStore" where
  "promiseSettled st = st\<lparr>inProgressRequest := None\<rparr>"

text \<open>
  The rest of an invocation, once the awaited promise has settled with the responses
  (or has rejected). New objects are allocated behind the heap for the stamped patches.
\<close>

definition responseErrors :: "'a result list \<Rightarrow> string option list" where
  "responseErrors responses = filter (\<lambda>e. e \<noteq> None) (map error responses)"

text \<open>
  \<open>responses.flatMap((response) => response.data).filter(Boolean)\<close>: the patches of the
  responses that carry data, in order; a response without data contributes nothing.
\<close>

definition responsePatches :: "patch list result list \<Rightarrow> patch list" where
  "responsePatches responses =
     concat (map (\<lambda>response. case data response of None \<Rightarrow> [] | Some ps \<Rightarrow> ps) responses)"

fun fetchAllPatches_resume ::
  "fetchAllTask \<Rightarrow> patch list result list outcome \<Rightarrow> patchStore \<Rightarrow> bool outcome \<times> patchStore" where
  "fetchAllPatches_resume (Done b) settled st = (Returned b, st)"
| "fetchAllPatches_resume (AwaitInProgress p) (Threw e) st = (Threw e, st)"
| "fetchAllPatches_resume (AwaitInProgress p) (Returned responses) st = (Returned True, st)"
| "fetchAllPatches_resume (AwaitResponses p nowTs) (Threw e) st = (Threw e, st)"
| "fetchAllPatches_resume (AwaitResponses p nowTs) (Returned responses) st =
     (let errors = responseErrors responses
      in if errors \<noteq> [] then (Returned False, st)
         else (let fetchedPatches = map (augment nowTs) (responsePatches responses)
               in (Returned True,
                   st\<lparr>heap := heap st @ fetchedPatches,
                      patches := Some [length (heap st) ..< length (heap st) + length fetchedPatches]\<rparr>)))"

text \<open>One invocation run to its end, with nothing else scheduled in between.\<close>

definition fetchAllPatches ::
  "string option \<Rightarrow> rat \<Rightarrow> patch list result list outcome \<Rightarrow> patchStore \<Rightarrow> bool outcome \<times> patchStore" where
  "fetchAllPatches rid nowTs settled st =
     (case fetchAllPatches_begin rid nowTs st of
        (Done b, st1) \<Rightarrow> (Returned b, st1)
      | (task, st1) \<Rightarrow> fetchAllPatches_resume task settled (promiseSettled st1))"

text \<open>
  Two invocations, the second made while the first is suspended: both synchronous parts
  run, the adapter's promise settles, the \<open>finally\<close> callback runs, and the two
  invocations resume in the order in which they began to wait.
\<close>

definition twoConcurrentFetches ::
  "string option \<Rightarrow> rat \<Rightarrow> rat \<Rightarrow> patch list result list outcome \<Rightarrow> patchStore
     \<Rightarrow> bool outcome \<times> bool outcome \<times> patchStore" where
  "twoConcurrentFetches rid nowTs1 nowTs2 settled st =
     (let (task1, st1) = fetchAllPatches_begin rid nowTs1 st;
          (task2, st2) = fetchAllPatches_begin rid nowTs2 st1;
          st3 = promiseSettled st2;
          (r1, st4) = fetchAllPatches_resume task1 settled st3;
          (r2, st5) = fetchAllPatches_resume task2 settled st4
      in (r1, r2, st5))"

subsection \<open>checkedOutPatch\<close>

text \<open>
  The regular expression \<open>/patch\/([0-9A-Fa-f]*)/\<close>: the match starts at the first
  occurrence of \<open>patch/\<close>, and its group is the longest run of hexadecimal digits that
  follows. \<open>None\<close> is no match.
\<close>

definition isHexChar :: "char \<Rightarrow> bool" where
  "isHexChar c = (c \<in> set ''0123456789ABCDEFabcdef'')"

fun matchHexCharsAfterPatch :: "string \<Rightarrow> string option" where
  "matchHexCharsAfterPatch [] = None"
| "matchHexCharsAfterPatch (c # cs) =
     (if prefix ''patch/'' (c # cs) then Some (takeWhile isHexChar (drop 6 (c # cs)))
      else matchHexCharsAfterPatch cs)"

text \<open>
  The computed \<open>checkedOutPatch\<close>, evaluated for the current branch of the git store. The
  getter stores the previously computed value in \<open>prevCheckedOutPatch\<close>;
  \<open>checkedOutPatchValue\<close> is the value the computed reference holds.
\<close>

definition checkedOutPatch :: "string option \<Rightarrow> patchStore \<Rightarrow> ref option \<times> patchStore" where
  "checkedOutPatch currentBranch st =
     (let st1 = st\<lparr>prevCheckedOutPatch := checkedOutPatchValue st\<rparr>;
          checkedOutPatchPartialId =
            (case currentBranch of None \<Rightarrow> None | Some b \<Rightarrow> matchHexCharsAfterPatch b);
          newCheckedOutPatch =
            (case checkedOutPatchPartialId of
               None \<Rightarrow> None
             | Some partialId \<Rightarrow> if partialId \<noteq> [] then findPatchById st1 partialId else None)
      in (newCheckedOutPatch, st1\<lparr>checkedOutPatchValue := newCheckedOutPatch\<rparr>))"

section \<open>Sorting\<close>

text \<open>
  \<open>Array.prototype.sort(compareFn)\<close>: a stable sort; an element goes before the first
  element that the comparator does not put in front of it.
\<close>

fun insertBy :: "('a \<Rightarrow> 'a \<Rightarrow> int) \<Rightarrow> 'a \<Rightarrow> 'a list \<Rightarrow> 'a list" where
  "insertBy compareFn x [] = [x]"
| "insertBy compareFn x (y # ys) =
     (if compareFn x y \<le> 0 then x # y # ys else y # insertBy compareFn x ys)"

definition arraySort :: "('a \<Rightarrow> 'a \<Rightarrow> int) \<Rightarrow> 'a list \<Rightarrow> 'a list" where
  "arraySort compareFn xs = foldr (insertBy compareFn) xs []"

text \<open>A comparator that \<open>sort\<close> can rely on: total and transitive.\<close>

definition consistentComparator :: "('a \<Rightarrow> 'a \<Rightarrow> int) \<Rightarrow> bool" where
  "consistentComparator compareFn =
     ((\<forall>a b. compareFn a b \<le> 0 \<or> compareFn b a \<le> 0) \<and>
      (\<forall>a b c. compareFn a b \<le> 0 \<longrightarrow> compareFn b c \<le> 0 \<longrightarrow> compareFn a c \<le> 0))"

section \<open>Edge revisions of a patch\<close>

text \<open>
  \<open>getFirstAndLatestRevisions\<close>: index 0 and \<open>at(-1)\<close> of the revisions sorted oldest
  first; both are \<open>undefined\<close> (\<open>None\<close>) for a patch without revisions.
\<close>

record edgeRevisions =
  firstRevision :: "revision option"
  latestRevision :: "revision option"

definition getFirstAndLatestRevisions :: "patch \<Rightarrow> edgeRevisions" where
  "getFirstAndLatestRevisions p =
     (let revisionsSortedOldestFirst =
            arraySort (\<lambda>p1 p2. timestamp p1 - timestamp p2) (revisions p)
      in \<lparr>firstRevision =
            (case revisionsSortedOldestFirst of [] \<Rightarrow> None | r # _ \<Rightarrow> Some r),
          latestRevision =
            (if revisionsSortedOldestFirst = [] then None
             else Some (last revisionsSortedOldestFirst))\<rparr>)"

section \<open>The changed files of a patch\<close>

text \<open>
  The \<open>diff\<close> of a diff response: changes whose file content is available (added,
  deleted, modified) carry a path, the others (copied, moved) an old and a new path.
\<close>

record sourceFilechange =
  path :: string
  oldOid :: "string option"
  newOid :: "string option"

record pathFilechange =
  oldPath :: string
  newPath :: string

record diffFiles =
  added :: "sourceFilechange list"
  deleted :: "sourceFilechange list"
  modified :: "sourceFilechange list"
  copied :: "pathFilechange list"
  moved :: "pathFilechange list"

text \<open>
  A \<open>FilechangeNode\<close>. \<open>shouldShowPathInDescription\<close> is the variable its closures
  share: \<open>enableShowingPathInDescription\<close> sets it, and \<open>getTreeItem\<close> reads it for the
  description of the tree item, which is the directory of the file or \<open>undefined\<close>.
\<close>

record filechangeNode =
  resolvedPath :: string
  filename :: string
  shouldShowPathInDescription :: bool

definition enableShowingPathInDescription :: "filechangeNode \<Rightarrow> filechangeNode" where
  "enableShowingPathInDescription node = node\<lparr>shouldShowPathInDescription := True\<rparr>"

definition treeItemDescription :: "(string \<Rightarrow> string) \<Rightarrow> filechangeNode \<Rightarrow> string option" where
  "treeItemDescription dirname node =
     (if shouldShowPathInDescription node then Some (dirname (resolvedPath node)) else None)"

text \<open>
  \<open>Path.basename\<close> and \<open>Path.dirname\<close> of \<open>node:path\<close> for the separator \<open>/\<close>.
  \<open>basename\<close> skips the separators that end the path and answers what follows the
  last separator before them. \<open>dirname\<close> looks, from the end and down to the second
  character, for the first separator that comes before a character that is not a
  separator, and answers the path up to it; without one it answers the root or \<open>.\<close>.
\<close>

definition posixBasename :: "string \<Rightarrow> string" where
  "posixBasename p =
     rev (takeWhile (\<lambda>c. c \<noteq> CHR ''/'') (dropWhile (\<lambda>c. c = CHR ''/'') (rev p)))"

definition posixDirname :: "string \<Rightarrow> string" where
  "posixDirname p =
     (case p of
        [] \<Rightarrow> ''.''
      | c # cs \<Rightarrow>
         (let hasRoot = (c = CHR ''/'');
              beforeName = dropWhile (\<lambda>c. c \<noteq> CHR ''/'')
                             (dropWhile (\<lambda>c. c = CHR ''/'') (rev cs))
          in case beforeName of
               [] \<Rightarrow> if hasRoot then ''/'' else ''.''
             | _ # upTo \<Rightarrow> if hasRoot \<and> upTo = [] then ''//'' else c # rev upTo))"

text \<open>
  The nodes in the order the source builds them: added, deleted, modified, then copied
  and moved. \<open>basename\<close> is the host's \<open>Path.basename\<close>.
\<close>

definition newFilechangeNode :: "(string \<Rightarrow> string) \<Rightarrow> string \<Rightarrow> filechangeNode" where
  "newFilechangeNode basename p =
     \<lparr>resolvedPath = p, filename = basename p, shouldShowPathInDescription = False\<rparr>"

definition initialFilechangeNodes :: "(string \<Rightarrow> string) \<Rightarrow> diffFiles \<Rightarrow> filechangeNode list" where
  "initialFilechangeNodes basename d =
     map (\<lambda>filechange. newFilechangeNode basename (path filechange))
         (added d @ deleted d @ modified d)
     @ map (\<lambda>filechange. newFilechangeNode basename (newPath filechange))
         (copied d @ moved d)"

text \<open>
  The callback of \<open>map\<close> for the node at index \<open>i\<close>: the other nodes are the nodes that
  are not this object, that is, the nodes at the other indices.
\<close>

definition markSameFilename :: "filechangeNode list \<Rightarrow> nat \<Rightarrow> filechangeNode" where
  "markSameFilename nodes i =
     (let filechangeNode = nodes ! i;
          nodesExcludingFileChangeNode = take i nodes @ drop (Suc i) nodes;
          hasSameFilenameWithAnotherFile =
            (find (\<lambda>node. filename node = filename filechangeNode)
                  nodesExcludingFileChangeNode \<noteq> None)
      in if hasSameFilenameWithAnotherFile then enableShowingPathInDescription filechangeNode
         else filechangeNode)"

text \<open>
  The list \<open>getChildren\<close> answers for a patch whose diff was fetched. \<open>localeCompare\<close> is
  the host's \<open>String.prototype.localeCompare\<close>.
\<close>

definition filechangeNodes ::
  "(string \<Rightarrow> string) \<Rightarrow> (string \<Rightarrow> string \<Rightarrow> int) \<Rightarrow> diffFiles \<Rightarrow> filechangeNode list" where
  "filechangeNodes basename localeCompare d =
     (let nodes = initialFilechangeNodes basename d
      in arraySort (\<lambda>n1 n2. localeCompare (resolvedPath n1) (resolvedPath n2))
           (map (markSameFilename nodes) [0..<length nodes]))"

text \<open>
  A collation of the kind \<open>localeCompare\<close> applies: strings are compared letter by
  letter without regard to case, and between strings that differ in case only, the one
  with the lower-case letter at the first difference goes first (\<open>a\<close>, \<open>A\<close>, \<open>b\<close>,
  \<open>B\<close>). On the paths of the examples below this is the order that \<open>localeCompare\<close>
  gives in the English locale.
\<close>

definition toLowerChar :: "char \<Rightarrow> char" where
  "toLowerChar c =
     (if CHR ''A'' \<le> c \<and> c \<le> CHR ''Z'' then char_of (of_char c + (32::nat)) else c)"

definition isUpperChar :: "char \<Rightarrow> bool" where
  "isUpperChar c = (CHR ''A'' \<le> c \<and> c \<le> CHR ''Z'')"

definition collationKey :: "string \<Rightarrow> string \<times> bool list" where
  "collationKey s = (map toLowerChar s, map isUpperChar s)"

definition localeCollation :: "string \<Rightarrow> string \<Rightarrow> int" where
  "localeCollation a b =
     (if collationKey a = collationKey b then 0
      else if collationKey a < collationKey b then - 1 else 1)"

text \<open>Two strings that the comparator does not tell apart.\<close>

definition comparesEqual :: "('a \<Rightarrow> 'a \<Rightarrow> int) \<Rightarrow> 'a \<Rightarrow> 'a \<Rightarrow> bool" where
  "comparesEqual compareFn a b = (compareFn a b \<le> 0 \<and> compareFn b a \<le> 0)"

section \<open>The node connection\<close>

text \<open>
  A configuration value is a string or a boolean; the workspace configuration maps keys
  to values.
\<close>

datatype configValue = ConfigString string | ConfigBool bool

text \<open>
  \<open>String.prototype.trim\<close> removes white space and line terminators from both ends;
  below 256 these are the code units 9 to 13, 32 and 160.
\<close>

definition isSpace :: "char \<Rightarrow> bool" where
  "isSpace c =
     (c \<in> set [CHR '' '', CHR 0x09, CHR 0x0A, CHR 0x0B, CHR 0x0C, CHR 0x0D, CHR 0xA0])"

definition trim :: "string \<Rightarrow> string" where
  "trim s = rev (dropWhile isSpace (rev (dropWhile isSpace s)))"

text \<open>
  \<open>getConfig\<close>: the two keys of \<open>ExtensionConfig\<close> are read from the configuration and
  trimmed (calling \<open>trim\<close> on a value that is not a string is a \<open>TypeError\<close>); every
  other key reaches the \<open>default\<close> branch and yields whatever \<open>assertUnreachable\<close>
  yields, which is the first argument.
\<close>

definition getConfig ::
  "configValue option outcome \<Rightarrow> (string \<Rightarrow> configValue option) \<Rightarrow> string
     \<Rightarrow> configValue option outcome" where
  "getConfig assertUnreachable config configKey =
     (if configKey = ''radicle.advanced.pathToRadBinary''
         \<or> configKey = ''radicle.advanced.pathToNodeHome''
      then (case config configKey of
              None \<Rightarrow> Returned None
            | Some (ConfigString s) \<Rightarrow> Returned (Some (ConfigString (trim s)))
            | Some (ConfigBool b) \<Rightarrow> Threw ''TypeError'')
      else assertUnreachable)"

definition truthyConfig :: "configValue option \<Rightarrow> bool" where
  "truthyConfig v =
     (case v of None \<Rightarrow> False | Some (ConfigString s) \<Rightarrow> s \<noteq> [] | Some (ConfigBool b) \<Rightarrow> b)"

text \<open>
  The module state of \<open>nodeConnection.ts\<close>: the memoized adapter. An adapter instance is
  its class and the number of adapters constructed before it; \<open>constructed\<close> counts the
  constructor calls.
\<close>

datatype adapterClass = NAPINodeConnection | ClassicNode

record connectionState =
  nodeConnection :: "(adapterClass \<times> nat) option"
  constructed :: nat

definition getNodeConnection ::
  "configValue option outcome \<Rightarrow> (string \<Rightarrow> configValue option) \<Rightarrow> connectionState
     \<Rightarrow> (adapterClass \<times> nat) outcome \<times> connectionState" where
  "getNodeConnection assertUnreachable config st =
     (case nodeConnection st of
        Some c \<Rightarrow> (Returned c, st)
      | None \<Rightarrow>
         (case getConfig assertUnreachable config ''radicle.advanced.useNodeApi'' of
            Threw e \<Rightarrow> (Threw e, st)
          | Returned v \<Rightarrow>
             (let c = (if truthyConfig v then NAPINodeConnection else ClassicNode, constructed st)
              in (Returned c, st\<lparr>nodeConnection := Some c, constructed := Suc (constructed st)\<rparr>))))"

subsection \<open>Results built by the adapters\<close>











section \<open>Example data\<close>

definition exampleRevision :: "int \<Rightarrow> revision" where
  "exampleRevision ts =
     \<lparr>timestamp = ts, revisionAuthor = ''alice'', description = ''a revision'',
      base = ''0a1b'', oid = ''2c3d''\<rparr>"

definition examplePatch :: "string \<Rightarrow> revision list \<Rightarrow> patch" where
  "examplePatch i revs =
     \<lparr>patchId = i, title = ''a patch'', author = ''alice'', labels = [], status = Open,
      revisions = revs\<rparr>"

definition exampleDiff :: "string list \<Rightarrow> string list \<Rightarrow> diffFiles" where
  "exampleDiff addedPaths modifiedPaths =
     \<lparr>added = map (\<lambda>p. \<lparr>path = p, oldOid = None, newOid = Some ''1f''\<rparr>) addedPaths,
      deleted = [],
      modified = map (\<lambda>p. \<lparr>path = p, oldOid = Some ''2e'', newOid = Some ''3d''\<rparr>) modifiedPaths,
      copied = [], moved = []\<rparr>"

text \<open>
  A store that holds two patches, fetched at time 1, with no request in progress, and
  the same store while the first batch it issued is still awaited.
\<close>

definition exampleStore :: patchStore where
  "exampleStore =
     \<lparr>heap = [augment 1 (examplePatch ''00ab12cd34'' [exampleRevision 100]),
              augment 1 (examplePatch ''ab12cd34ff'' [exampleRevision 200])],
      patches = Some [0, 1],
      prevCheckedOutPatch = None, checkedOutPatchValue = None,
      lastFetchedTs = Some 1, inProgressRequest = None, adapterBatches = []\<rparr>"

definition exampleStoreFetching :: patchStore where
  "exampleStoreFetching =
     exampleStore\<lparr>inProgressRequest := Some 0, adapterBatches := [''rad:z3gqcJUoA1n9'']\<rparr>"

text \<open>The store with a third patch, cached in front of the other two.\<close>

definition exampleStoreOfThree :: patchStore where
  "exampleStoreOfThree =
     exampleStore\<lparr>heap := heap exampleStore
                             @ [augment 1 (examplePatch ''7f00aa11bb'' [exampleRevision 300])],
                  patches := Some [2, 1, 0]\<rparr>"


text \<open>Four per-status responses of which the second failed, and four that succeeded.\<close>

definition exampleFailedBatch :: "patch list result list" where
  "exampleFailedBatch =
     [dataResult [examplePatch ''7f00'' [exampleRevision 300]], errorResult ''request failed'',
      dataResult [], dataResult []]"

definition exampleBatch :: "patch list result list" where
  "exampleBatch =
     [dataResult [examplePatch ''7f00'' [exampleRevision 300]],
      dataResult [examplePatch ''8e11'' [exampleRevision 400]],
      dataResult [], dataResult []]"

section \<open>Properties of the helpers\<close>

lemma includes_sublist: "strIncludes s needle = sublist needle s"
  by (induction s) (auto simp: sublist_Cons_right)

lemma includes_Nil [simp]: "strIncludes s []"
  by (cases s) simp_all

lemma includes_self [simp]: "strIncludes s s"
  by (cases s) simp_all

lemma patchOf_augment [simp]: "patchOf (augment t p) = p"
  by (simp add: patchOf_def augment_def)

lemma patchLastFetchedTs_augment [simp]: "patchLastFetchedTs (augment t p) = t"
  by (simp add: augment_def)

section \<open>The store stays well formed\<close>

text \<open>
  Every operation of the store leaves a well-formed store well formed (for
  \<open>refetchPatch\<close> see \<open>wfStore_refetchPatch\<close> below); a store whose cache is
  \<open>undefined\<close> is well formed.
\<close>

lemma wfStore_frame:
  "heap st' = heap st \<Longrightarrow> patches st' = patches st \<Longrightarrow> wfStore st' = wfStore st"
  by (simp add: wfStore_def split: option.splits)

lemma wfStore_fetchAllPatches_begin:
  "wfStore (snd (fetchAllPatches_begin rid nowTs st)) = wfStore st"
  by (rule wfStore_frame)
     (simp_all add: fetchAllPatches_begin_def Let_def split: option.splits)

lemma wfStore_promiseSettled: "wfStore (promiseSettled st) = wfStore st"
  by (rule wfStore_frame) (simp_all add: promiseSettled_def)

lemma wfStore_fetchAllPatches_resume:
  "wfStore st \<Longrightarrow> wfStore (snd (fetchAllPatches_resume task settled st))"
  by (cases "(task, settled, st)" rule: fetchAllPatches_resume.cases)
     (auto simp: Let_def wfStore_def list_all_iff split: option.splits)

lemma wfStore_checkedOutPatch: "wfStore (snd (checkedOutPatch currentBranch st)) = wfStore st"
  by (rule wfStore_frame) (simp_all add: checkedOutPatch_def Let_def)

lemma wfStore_resetAllPatches: "wfStore (resetAllPatches st)"
  by (simp add: wfStore_def resetAllPatches_def)

section \<open>Looking a patch up by a fragment of its id\<close>

text \<open>
  C9. \<open>findPatchById\<close> answers \<open>undefined\<close> for every argument while the cache is
  \<open>undefined\<close>; on a non-empty cache the empty string selects the first patch of the
  collection, since every id contains the empty string.
\<close>

theorem findPatchById_uninitialized_and_empty_fragment:
  "findPatchById (st\<lparr>patches := None\<rparr>) partialOrWholeId = None
   \<and> findPatchById (st\<lparr>patches := Some (r # rs)\<rparr>) [] = Some r"
  by (simp add: findPatchById_def)

section \<open>Properties of the sort\<close>

lemma mset_insertBy: "mset (insertBy cmp x ys) = add_mset x (mset ys)"
  by (induction ys) simp_all

lemma mset_arraySort: "mset (arraySort cmp xs) = mset xs"
  by (induction xs) (simp_all add: arraySort_def mset_insertBy)

lemma set_arraySort: "set (arraySort cmp xs) = set xs"
  using mset_arraySort [of cmp xs] by (metis set_mset_mset)

lemma length_arraySort: "length (arraySort cmp xs) = length xs"
  using mset_arraySort [of cmp xs] by (metis size_mset)

lemma sorted_insertBy:
  assumes "consistentComparator cmp" and "sorted_wrt (\<lambda>a b. cmp a b \<le> 0) ys"
  shows "sorted_wrt (\<lambda>a b. cmp a b \<le> 0) (insertBy cmp x ys)"
  using assms(2)
proof (induction ys)
  case Nil
  then show ?case by simp
next
  case (Cons y ys)
  have total: "\<And>a b. cmp a b \<le> 0 \<or> cmp b a \<le> 0"
    and trans: "\<And>a b c. cmp a b \<le> 0 \<Longrightarrow> cmp b c \<le> 0 \<Longrightarrow> cmp a c \<le> 0"
    using assms(1) unfolding consistentComparator_def by blast+
  show ?case
  proof (cases "cmp x y \<le> 0")
    case True
    with Cons.prems trans show ?thesis by auto
  next
    case False
    with total have "cmp y x \<le> 0" by blast
    moreover have "set (insertBy cmp x ys) = insert x (set ys)"
      using mset_insertBy [of cmp x ys] by (metis set_mset_mset set_mset_add_mset_insert)
    ultimately show ?thesis using False Cons by auto
  qed
qed

lemma sorted_arraySort:
  "consistentComparator cmp \<Longrightarrow> sorted_wrt (\<lambda>a b. cmp a b \<le> 0) (arraySort cmp xs)"
  by (induction xs) (simp_all add: arraySort_def sorted_insertBy)

lemma sorted_wrt_last_greatest:
  "sorted_wrt R xs \<Longrightarrow> xs \<noteq> [] \<Longrightarrow> y \<in> set (butlast xs) \<Longrightarrow> R y (last xs)"
  by (induction xs) (auto split: if_splits dest: in_set_butlastD)

section \<open>Edge revisions\<close>

lemma consistent_by_timestamp:
  "consistentComparator (\<lambda>p1 p2. timestamp p1 - timestamp (p2::revision))"
  unfolding consistentComparator_def by auto

text \<open>
  C6. For a patch with at least one revision, the first revision is a revision of the
  patch with the least timestamp and the latest revision one with the greatest
  timestamp; the two timestamps depend on the set of revisions only, not on the order
  in which the patch stores them. A patch with one revision has it as both.
\<close>

theorem getFirstAndLatestRevisions_edges:
  assumes "revisions p \<noteq> []"
  shows "\<exists>f l. firstRevision (getFirstAndLatestRevisions p) = Some f
           \<and> latestRevision (getFirstAndLatestRevisions p) = Some l
           \<and> f \<in> set (revisions p) \<and> l \<in> set (revisions p)
           \<and> timestamp f = Min (timestamp ` set (revisions p))
           \<and> timestamp l = Max (timestamp ` set (revisions p))
           \<and> (length (revisions p) = 1 \<longrightarrow> f = l)"
proof -
  define srt where "srt = arraySort (\<lambda>p1 p2. timestamp p1 - timestamp p2) (revisions p)"
  have set_eq: "set srt = set (revisions p)" by (simp add: srt_def set_arraySort)
  have len: "length srt = length (revisions p)" by (simp add: srt_def length_arraySort)
  have ne: "srt \<noteq> []" using assms len by auto
  have sorted: "sorted_wrt (\<lambda>a b. timestamp a \<le> timestamp b) srt"
    using sorted_arraySort [OF consistent_by_timestamp, of "revisions p"]
    by (simp add: srt_def)
  obtain f rest where srt: "srt = f # rest" using ne by (cases srt) auto
  define l where "l = last srt"
  have f_in: "f \<in> set (revisions p)" using srt set_eq by auto
  have l_in: "l \<in> set (revisions p)" using ne set_eq l_def last_in_set by blast
  have f_least: "timestamp f \<le> timestamp r" if "r \<in> set (revisions p)" for r
    using that sorted set_eq srt by auto
  have l_greatest: "timestamp r \<le> timestamp l" if "r \<in> set (revisions p)" for r
  proof (cases "r = l")
    case True
    then show ?thesis by simp
  next
    case False
    have "r \<in> set srt" using that set_eq by simp
    then have "r \<in> set (butlast srt)"
      using False ne l_def
      by (metis append_butlast_last_id insert_iff list.set(2) rotate1.simps(2) set_rotate1)
    then show ?thesis using sorted_wrt_last_greatest [OF sorted ne] l_def by blast
  qed
  have fmin: "timestamp f = Min (timestamp ` set (revisions p))"
    by (intro Min_eqI [symmetric]) (use f_in f_least in auto)
  have lmax: "timestamp l = Max (timestamp ` set (revisions p))"
    by (intro Max_eqI [symmetric]) (use l_in l_greatest in auto)
  have single: "length (revisions p) = 1 \<longrightarrow> f = l"
    using len srt l_def by (cases rest) auto
  have "firstRevision (getFirstAndLatestRevisions p) = Some f"
    using srt by (simp add: getFirstAndLatestRevisions_def Let_def srt_def [symmetric])
  moreover have "latestRevision (getFirstAndLatestRevisions p) = Some l"
    using ne l_def by (simp add: getFirstAndLatestRevisions_def Let_def srt_def [symmetric])
  ultimately show ?thesis using f_in l_in fmin lmax single by blast
qed

text \<open>Revisions stored with the timestamps 100, 300, 200: first is 100, latest is 300.\<close>

theorem getFirstAndLatestRevisions_edges_witness:
  "revisions (examplePatch ''ab12cd34''
       [exampleRevision 100, exampleRevision 300, exampleRevision 200]) \<noteq> []
   \<and> firstRevision (getFirstAndLatestRevisions (examplePatch ''ab12cd34''
       [exampleRevision 100, exampleRevision 300, exampleRevision 200]))
     = Some (exampleRevision 100)
   \<and> latestRevision (getFirstAndLatestRevisions (examplePatch ''ab12cd34''
       [exampleRevision 100, exampleRevision 300, exampleRevision 200]))
     = Some (exampleRevision 300)"
  using getFirstAndLatestRevisions_edges
    [of "examplePatch ''ab12cd34''
       [exampleRevision 100, exampleRevision 300, exampleRevision 200]"]
  by (auto simp: examplePatch_def exampleRevision_def)

section \<open>The changed files of a patch: disambiguation and order\<close>

lemma insertBy_map:
  "map f (insertBy (\<lambda>a b. cmp (f a) (f b)) x ys) = insertBy cmp (f x) (map f ys)"
  by (induction ys) simp_all

lemma arraySort_map:
  "arraySort cmp (map f xs) = map f (arraySort (\<lambda>a b. cmp (f a) (f b)) xs)"
  by (induction xs) (simp_all add: arraySort_def insertBy_map)

lemma set_without_index:
  "set (take i xs @ drop (Suc i) xs) = {xs ! j | j. j < length xs \<and> j \<noteq> i}"
proof (induction xs arbitrary: i)
  case Nil
  then show ?case by simp
next
  case (Cons x xs)
  show ?case
  proof (cases i)
    case 0
    have "set xs = {(x # xs) ! j | j. j < length (x # xs) \<and> j \<noteq> 0}"
    proof (intro set_eqI iffI)
      fix y assume "y \<in> set xs"
      then obtain m where "m < length xs" "y = xs ! m" by (auto simp: in_set_conv_nth)
      then have "y = (x # xs) ! Suc m \<and> Suc m < length (x # xs) \<and> Suc m \<noteq> 0" by simp
      then show "y \<in> {(x # xs) ! j | j. j < length (x # xs) \<and> j \<noteq> 0}" by blast
    next
      fix y assume "y \<in> {(x # xs) ! j | j. j < length (x # xs) \<and> j \<noteq> 0}"
      then obtain j where j: "j < length (x # xs)" "j \<noteq> 0" "y = (x # xs) ! j" by auto
      then obtain m where "j = Suc m" by (cases j) auto
      with j show "y \<in> set xs" by simp
    qed
    then show ?thesis using 0 by simp
  next
    case (Suc k)
    have "set (take i (x # xs) @ drop (Suc i) (x # xs)) = insert x (set (take k xs @ drop (Suc k) xs))"
      using Suc by simp
    also have "\<dots> = insert x {xs ! j | j. j < length xs \<and> j \<noteq> k}"
      using Cons.IH by simp
    also have "\<dots> = {(x # xs) ! j | j. j < length (x # xs) \<and> j \<noteq> i}"
    proof (intro set_eqI iffI)
      fix y assume "y \<in> insert x {xs ! j | j. j < length xs \<and> j \<noteq> k}"
      then consider "y = x" | j where "j < length xs" "j \<noteq> k" "y = xs ! j" by auto
      then show "y \<in> {(x # xs) ! j | j. j < length (x # xs) \<and> j \<noteq> i}"
      proof cases
        case 1
        then have "y = (x # xs) ! 0 \<and> 0 < length (x # xs) \<and> 0 \<noteq> i" using Suc by simp
        then show ?thesis by blast
      next
        case 2
        then have "y = (x # xs) ! Suc j \<and> Suc j < length (x # xs) \<and> Suc j \<noteq> i"
          using Suc by simp
        then show ?thesis by blast
      qed
    next
      fix y assume "y \<in> {(x # xs) ! j | j. j < length (x # xs) \<and> j \<noteq> i}"
      then obtain j where j: "j < length (x # xs)" "j \<noteq> i" "y = (x # xs) ! j" by auto
      show "y \<in> insert x {xs ! j | j. j < length xs \<and> j \<noteq> k}"
      proof (cases j)
        case 0
        then show ?thesis using j by simp
      next
        case (Suc m)
        then have "m < length xs \<and> m \<noteq> k \<and> y = xs ! m" using j \<open>i = Suc k\<close> by simp
        then show ?thesis by blast
      qed
    qed
    finally show ?thesis .
  qed
qed

lemma initial_not_shown:
  "n \<in> set (initialFilechangeNodes basename d) \<Longrightarrow>
     \<not> shouldShowPathInDescription n \<and> filename n = basename (resolvedPath n)"
  by (auto simp: initialFilechangeNodes_def newFilechangeNode_def)

lemma initial_paths:
  "map resolvedPath (initialFilechangeNodes basename d)
     = map path (added d @ deleted d @ modified d) @ map newPath (copied d @ moved d)"
  by (simp add: initialFilechangeNodes_def newFilechangeNode_def comp_def)

lemma markSameFilename_fields:
  "resolvedPath (markSameFilename nodes i) = resolvedPath (nodes ! i)
   \<and> filename (markSameFilename nodes i) = filename (nodes ! i)"
  by (simp add: markSameFilename_def Let_def enableShowingPathInDescription_def)

lemma markSameFilename_shown:
  assumes "\<not> shouldShowPathInDescription (nodes ! i)"
  shows "shouldShowPathInDescription (markSameFilename nodes i)
           \<longleftrightarrow> (\<exists>j<length nodes. j \<noteq> i \<and> filename (nodes ! j) = filename (nodes ! i))"
proof -
  have "(find (\<lambda>node. filename node = filename (nodes ! i)) (take i nodes @ drop (Suc i) nodes) \<noteq> None)
          \<longleftrightarrow> (\<exists>n \<in> set (take i nodes @ drop (Suc i) nodes). filename n = filename (nodes ! i))"
    by (simp only: find_None_iff) blast
  also have "\<dots> \<longleftrightarrow> (\<exists>j<length nodes. j \<noteq> i \<and> filename (nodes ! j) = filename (nodes ! i))"
    unfolding set_without_index by blast
  finally show ?thesis
    using assms by (simp add: markSameFilename_def Let_def enableShowingPathInDescription_def)
qed

lemma stable_insertBy:
  assumes "consistentComparator cmp"
  shows "filter (comparesEqual cmp k) (insertBy cmp x ys) = filter (comparesEqual cmp k) (x # ys)"
proof (induction ys)
  case Nil
  then show ?case by simp
next
  case (Cons y ys)
  have trans: "\<And>a b c. cmp a b \<le> 0 \<Longrightarrow> cmp b c \<le> 0 \<Longrightarrow> cmp a c \<le> 0"
    using assms unfolding consistentComparator_def by blast
  show ?case
  proof (cases "cmp x y \<le> 0")
    case True
    then show ?thesis by simp
  next
    case False
    have "\<not> (comparesEqual cmp k x \<and> comparesEqual cmp k y)"
      using False trans unfolding comparesEqual_def by blast
    then show ?thesis using False Cons.IH by auto
  qed
qed

lemma stable_arraySort:
  assumes "consistentComparator cmp"
  shows "filter (comparesEqual cmp k) (arraySort cmp xs) = filter (comparesEqual cmp k) xs"
proof (induction xs)
  case Nil
  then show ?case by (simp add: arraySort_def)
next
  case (Cons x xs)
  have "filter (comparesEqual cmp k) (arraySort cmp (x # xs))
      = filter (comparesEqual cmp k) (x # arraySort cmp xs)"
    using stable_insertBy [OF assms, of k x "arraySort cmp xs"] by (simp add: arraySort_def)
  then show ?case using Cons.IH by simp
qed

text \<open>
  C7, as the code has it. In the list of file-change nodes of one diff, a node shows its
  directory exactly when another node of the same list has the same bare filename; the
  list holds one node for each changed path. The list is ordered by the full resolved
  path under the comparison of \<open>localeCompare\<close>, and paths that compare equal keep the
  order in which the diff lists them.
\<close>

theorem filechangeNodes_disambiguated_and_sorted:
  assumes "consistentComparator localeCompare"
  shows "mset (map resolvedPath (filechangeNodes basename localeCompare d))
           = mset (map path (added d @ deleted d @ modified d) @ map newPath (copied d @ moved d))
   \<and> (\<forall>k<length (filechangeNodes basename localeCompare d).
         filename (filechangeNodes basename localeCompare d ! k)
           = basename (resolvedPath (filechangeNodes basename localeCompare d ! k))
       \<and> treeItemDescription dirname (filechangeNodes basename localeCompare d ! k)
           = (if \<exists>m<length (filechangeNodes basename localeCompare d). m \<noteq> k
                   \<and> filename (filechangeNodes basename localeCompare d ! m)
                       = filename (filechangeNodes basename localeCompare d ! k)
              then Some (dirname (resolvedPath (filechangeNodes basename localeCompare d ! k)))
              else None))
   \<and> sorted_wrt (\<lambda>n1 n2. localeCompare (resolvedPath n1) (resolvedPath n2) \<le> 0)
        (filechangeNodes basename localeCompare d)
   \<and> filter (comparesEqual localeCompare p)
        (map resolvedPath (filechangeNodes basename localeCompare d))
       = filter (comparesEqual localeCompare p)
           (map path (added d @ deleted d @ modified d) @ map newPath (copied d @ moved d))"
proof -
  define nodes0 where "nodes0 = initialFilechangeNodes basename d"
  define n where "n = length nodes0"
  define g where "g = markSameFilename nodes0"
  define cmp where "cmp = (\<lambda>(n1::filechangeNode) (n2::filechangeNode). localeCompare (resolvedPath n1) (resolvedPath n2))"
  define idx where "idx = arraySort (\<lambda>a b. cmp (g a) (g b)) [0..<n]"
  define final where "final = filechangeNodes basename localeCompare d"
  have final: "final = map g idx"
    by (simp add: final_def filechangeNodes_def Let_def idx_def arraySort_map
          nodes0_def [symmetric] n_def [symmetric] g_def [symmetric] cmp_def [symmetric])
  have mset_idx: "mset idx = mset [0..<n]" by (simp add: idx_def mset_arraySort)
  have dist: "distinct idx" using mset_idx by (metis distinct_upt mset_eq_imp_distinct_iff)
  have set_idx: "set idx = {0..<n}" using mset_idx by (metis set_mset_mset set_upt)
  have len: "length idx = n" using mset_idx by (metis size_mset length_upt diff_zero)
  have cons: "consistentComparator cmp"
    using assms unfolding consistentComparator_def cmp_def by blast
  have g_path: "resolvedPath (g i) = resolvedPath (nodes0 ! i)" for i
    by (simp add: g_def markSameFilename_fields)
  have g_name: "filename (g i) = filename (nodes0 ! i)" for i
    by (simp add: g_def markSameFilename_fields)
  have init: "\<not> shouldShowPathInDescription (nodes0 ! i) \<and>
      filename (nodes0 ! i) = basename (resolvedPath (nodes0 ! i))" if "i < n" for i
    using that initial_not_shown [of "nodes0 ! i" basename d] by (simp add: nodes0_def n_def)
  have g_shown: "shouldShowPathInDescription (g i)
       \<longleftrightarrow> (\<exists>j<n. j \<noteq> i \<and> filename (nodes0 ! j) = filename (nodes0 ! i))" if "i < n" for i
    using markSameFilename_shown [of nodes0 i] init [OF that] by (simp add: g_def n_def)
  have part1: "mset (map resolvedPath final)
      = mset (map path (added d @ deleted d @ modified d) @ map newPath (copied d @ moved d))"
  proof -
    have "mset (map resolvedPath final) = image_mset (\<lambda>i. resolvedPath (nodes0 ! i)) (mset idx)"
      by (simp add: final comp_def g_path)
    also have "\<dots> = mset (map (\<lambda>i. resolvedPath (nodes0 ! i)) [0..<n])"
      by (simp add: mset_idx)
    also have "map (\<lambda>i. resolvedPath (nodes0 ! i)) [0..<n] = map resolvedPath nodes0"
    proof -
      have "map resolvedPath nodes0 = map resolvedPath (map ((!) nodes0) [0..<n])"
        by (simp only: n_def map_nth)
      then show ?thesis by (simp add: comp_def)
    qed
    finally show ?thesis by (simp add: nodes0_def initial_paths)
  qed
  have part2: "filename (final ! k) = basename (resolvedPath (final ! k))
       \<and> treeItemDescription dirname (final ! k)
           = (if \<exists>m<length final. m \<noteq> k \<and> filename (final ! m) = filename (final ! k)
              then Some (dirname (resolvedPath (final ! k))) else None)"
    if k: "k < length final" for k
  proof -
    have kn: "k < n" using k final len by simp
    have ik: "idx ! k < n" using kn len set_idx nth_mem [of k idx] by auto
    have fk: "final ! k = g (idx ! k)" using kn len final by simp
    have "(\<exists>m<length final. m \<noteq> k \<and> filename (final ! m) = filename (final ! k))
        \<longleftrightarrow> (\<exists>j<n. j \<noteq> idx ! k \<and> filename (nodes0 ! j) = filename (nodes0 ! (idx ! k)))"
    proof
      assume "\<exists>m<length final. m \<noteq> k \<and> filename (final ! m) = filename (final ! k)"
      then obtain m where m: "m < n" "m \<noteq> k" "filename (final ! m) = filename (final ! k)"
        using final len by auto
      have "idx ! m < n" using m(1) len set_idx nth_mem [of m idx] by auto
      moreover have "idx ! m \<noteq> idx ! k"
        using dist m(1,2) kn len by (simp add: nth_eq_iff_index_eq)
      moreover have "filename (nodes0 ! (idx ! m)) = filename (nodes0 ! (idx ! k))"
        using m(1,3) kn len final by (simp add: g_name)
      ultimately show "\<exists>j<n. j \<noteq> idx ! k \<and> filename (nodes0 ! j) = filename (nodes0 ! (idx ! k))"
        by blast
    next
      assume "\<exists>j<n. j \<noteq> idx ! k \<and> filename (nodes0 ! j) = filename (nodes0 ! (idx ! k))"
      then obtain j where j: "j < n" "j \<noteq> idx ! k"
          "filename (nodes0 ! j) = filename (nodes0 ! (idx ! k))" by blast
      from j(1) set_idx have "j \<in> set idx" by simp
      then obtain m where m: "m < length idx" "idx ! m = j" by (auto simp: in_set_conv_nth)
      have "m \<noteq> k" using m(2) j(2) by auto
      moreover have "filename (final ! m) = filename (final ! k)"
        using m j(3) kn len final by (simp add: g_name)
      ultimately show "\<exists>m<length final. m \<noteq> k \<and> filename (final ! m) = filename (final ! k)"
        using m(1) final by auto
    qed
    then have "shouldShowPathInDescription (final ! k)
        \<longleftrightarrow> (\<exists>m<length final. m \<noteq> k \<and> filename (final ! m) = filename (final ! k))"
      using g_shown [OF ik] fk by simp
    moreover have "filename (final ! k) = basename (resolvedPath (final ! k))"
      using init [OF ik] fk by (simp add: g_name g_path)
    ultimately show ?thesis by (simp add: treeItemDescription_def)
  qed
  have part3: "sorted_wrt (\<lambda>n1 n2. cmp n1 n2 \<le> 0) final"
    using sorted_arraySort [OF cons] by (simp add: final_def filechangeNodes_def Let_def cmp_def)
  have part4: "filter (comparesEqual localeCompare p) (map resolvedPath final)
      = filter (comparesEqual localeCompare p)
          (map path (added d @ deleted d @ modified d) @ map newPath (copied d @ moved d))"
  proof -
    have "map resolvedPath (map g [0..<n]) = map resolvedPath nodes0"
    proof -
      have "map resolvedPath nodes0 = map resolvedPath (map ((!) nodes0) [0..<n])"
        by (simp only: n_def map_nth)
      then show ?thesis by (simp add: comp_def g_path)
    qed
    moreover have "map resolvedPath final
        = arraySort localeCompare (map (\<lambda>i. resolvedPath (g i)) [0..<n])"
      unfolding final idx_def cmp_def
      by (simp only: arraySort_map [of localeCompare "\<lambda>i. resolvedPath (g i)"] map_map comp_def)
    ultimately have "map resolvedPath final = arraySort localeCompare (map resolvedPath nodes0)"
      by (simp add: comp_def)
    then show ?thesis
      by (simp only: stable_arraySort [OF assms] nodes0_def initial_paths)
  qed
  show ?thesis
    using part1 part2 part3 part4 unfolding final_def cmp_def by blast
qed

lemma localeCollation_le: "localeCollation a b \<le> 0 \<longleftrightarrow> collationKey a \<le> collationKey b"
  by (auto simp: localeCollation_def)

lemma consistent_localeCollation: "consistentComparator localeCollation"
  unfolding consistentComparator_def localeCollation_le by auto

text \<open>
  The order is the one of the collation, not the lexicographic order of the characters:
  under a collation that compares letters without regard to case first, as
  \<open>localeCompare\<close> does, \<open>a.ts\<close> is listed before \<open>B.ts\<close>.
\<close>

theorem filechangeNodes_order_counterexample:
  "map resolvedPath (filechangeNodes posixBasename localeCollation (exampleDiff [] [''B.ts'', ''a.ts'']))
     = [''a.ts'', ''B.ts'']
   \<and> \<not> sorted (map resolvedPath
          (filechangeNodes posixBasename localeCollation (exampleDiff [] [''B.ts'', ''a.ts''])))"
proof -
  have a: "map resolvedPath
      (filechangeNodes posixBasename localeCollation (exampleDiff [] [''B.ts'', ''a.ts'']))
     = [''a.ts'', ''B.ts'']"
    by code_simp
  have b: "\<not> sorted [''a.ts'', ''B.ts'']"
    by code_simp
  show ?thesis using a b by simp
qed

text \<open>
  The files \<open>src/a.ts\<close> and \<open>lib/a.ts\<close> of one diff both show their directory, and
  \<open>src/b.ts\<close> beside them does not; \<open>src/a.ts\<close> alone does not.
\<close>

theorem filechangeNodes_disambiguated_and_sorted_witness:
  "consistentComparator localeCollation
   \<and> map (\<lambda>n. (resolvedPath n, treeItemDescription posixDirname n))
        (filechangeNodes posixBasename localeCollation
           (exampleDiff [''src/a.ts''] [''src/b.ts'', ''lib/a.ts'']))
       = [(''lib/a.ts'', Some ''lib''), (''src/a.ts'', Some ''src''), (''src/b.ts'', None)]
   \<and> map (\<lambda>n. (resolvedPath n, treeItemDescription posixDirname n))
        (filechangeNodes posixBasename localeCollation (exampleDiff [''src/a.ts''] []))
       = [(''src/a.ts'', None)]
   \<and> sorted_wrt (\<lambda>n1 n2. localeCollation (resolvedPath n1) (resolvedPath n2) \<le> 0)
        (filechangeNodes posixBasename localeCollation
           (exampleDiff [''src/a.ts''] [''src/b.ts'', ''lib/a.ts'']))"
proof -
  have c: "consistentComparator localeCollation" by (rule consistent_localeCollation)
  have e1: "map (\<lambda>n. (resolvedPath n, treeItemDescription posixDirname n))
        (filechangeNodes posixBasename localeCollation
           (exampleDiff [''src/a.ts''] [''src/b.ts'', ''lib/a.ts'']))
       = [(''lib/a.ts'', Some ''lib''), (''src/a.ts'', Some ''src''), (''src/b.ts'', None)]"
    by code_simp
  have e2: "map (\<lambda>n. (resolvedPath n, treeItemDescription posixDirname n))
        (filechangeNodes posixBasename localeCollation (exampleDiff [''src/a.ts''] []))
       = [(''src/a.ts'', None)]"
    by code_simp
  have e3: "sorted_wrt (\<lambda>n1 n2. localeCollation (resolvedPath n1) (resolvedPath n2) \<le> 0)
        (filechangeNodes posixBasename localeCollation
           (exampleDiff [''src/a.ts''] [''src/b.ts'', ''lib/a.ts'']))"
    using filechangeNodes_disambiguated_and_sorted
      [OF c, of posixBasename "exampleDiff [''src/a.ts''] [''src/b.ts'', ''lib/a.ts'']" posixDirname]
    by blast
  show ?thesis using c e1 e2 e3 by blast
qed

section \<open>Fetching all patches\<close>

lemma responseErrors_empty_iff:
  "responseErrors responses = [] \<longleftrightarrow> (\<forall>response \<in> set responses. error response = None)"
  by (auto simp: responseErrors_def filter_empty_conv)

lemma fetchAllPatches_issuing:
  assumes "inProgressRequest st = None" and "r \<noteq> []"
  shows "fetchAllPatches (Some r) nowTs settled st =
           fetchAllPatches_resume (AwaitResponses (length (adapterBatches st)) nowTs) settled
             (st\<lparr>lastFetchedTs := Some nowTs, adapterBatches := adapterBatches st @ [r],
                 inProgressRequest := None\<rparr>)"
  using assms
  by (simp add: fetchAllPatches_def fetchAllPatches_begin_def promiseSettled_def Let_def)

text \<open>
  The invocation that issues the batch (no request is in progress and the project id is
  resolved): when one of the per-status results carries an error it answers \<open>false\<close>
  and leaves the collection and its objects as they were; when every result carries
  data it answers \<open>true\<close> and the collection is replaced by new objects, one for each
  fetched patch in the order of the responses, each with the fields of the fetched patch
  and the timestamp of the fetch, while the objects of the old collection are left
  untouched.
\<close>

lemma responsePatches_data: "responsePatches (map dataResult pss) = concat pss"
  by (induction pss) (simp_all add: responsePatches_def dataResult_def)

lemma fetchAllPatches_issuing_batch:
  assumes "inProgressRequest st = None" and "r \<noteq> []"
  shows "((\<exists>response \<in> set responses. error response \<noteq> None) \<longrightarrow>
            fst (fetchAllPatches (Some r) nowTs (Returned responses) st) = Returned False
            \<and> patches (snd (fetchAllPatches (Some r) nowTs (Returned responses) st)) = patches st
            \<and> heap (snd (fetchAllPatches (Some r) nowTs (Returned responses) st)) = heap st)
       \<and> (responses = map dataResult pss \<longrightarrow>
            fst (fetchAllPatches (Some r) nowTs (Returned responses) st) = Returned True
            \<and> map patchOf (cachedObjects (snd (fetchAllPatches (Some r) nowTs (Returned responses) st)))
                = concat pss
            \<and> map patchLastFetchedTs
                 (cachedObjects (snd (fetchAllPatches (Some r) nowTs (Returned responses) st)))
                = replicate (length (concat pss)) nowTs
            \<and> take (length (heap st))
                 (heap (snd (fetchAllPatches (Some r) nowTs (Returned responses) st))) = heap st)"
proof -
  have nth: "map ((!) (heap st @ xs)) [length (heap st)..<length (heap st) + length xs] = xs"
    for xs :: "augmentedPatch list"
    by (rule nth_equalityI) (simp_all add: nth_append)
  have failed: "fst (fetchAllPatches (Some r) nowTs (Returned responses) st) = Returned False
            \<and> patches (snd (fetchAllPatches (Some r) nowTs (Returned responses) st)) = patches st
            \<and> heap (snd (fetchAllPatches (Some r) nowTs (Returned responses) st)) = heap st"
    if "\<exists>response \<in> set responses. error response \<noteq> None"
  proof -
    have "responseErrors responses \<noteq> []"
      using that by (simp add: responseErrors_empty_iff)
    then show ?thesis by (simp add: fetchAllPatches_issuing [OF assms] Let_def)
  qed
  have succeeded: "fst (fetchAllPatches (Some r) nowTs (Returned responses) st) = Returned True
            \<and> map patchOf (cachedObjects (snd (fetchAllPatches (Some r) nowTs (Returned responses) st)))
                = concat pss
            \<and> map patchLastFetchedTs
                 (cachedObjects (snd (fetchAllPatches (Some r) nowTs (Returned responses) st)))
                = replicate (length (concat pss)) nowTs
            \<and> take (length (heap st))
                 (heap (snd (fetchAllPatches (Some r) nowTs (Returned responses) st))) = heap st"
    if "responses = map dataResult pss"
  proof -
    have "responseErrors responses = []"
      using that by (simp add: responseErrors_empty_iff dataResult_def)
    moreover have "map (\<lambda>x. nowTs) (concat pss) = replicate (length (concat pss)) nowTs"
      by (simp add: map_replicate_const)
    ultimately show ?thesis
      using nth [of "map (augment nowTs) (concat pss)"]
      by (simp add: fetchAllPatches_issuing [OF assms] Let_def cachedObjects_def cachedPatches_def
            that responsePatches_data comp_def)
  qed
  show ?thesis using failed succeeded by blast
qed

text \<open>
  C3, at the inputs where the code departs from it. An invocation that finds a request
  in progress answers \<open>true\<close> whatever the responses of the batch are, also when one of
  them carries an error; it leaves the collection as it was.
\<close>

theorem fetchAllPatches_in_progress_answers_true:
  assumes "inProgressRequest st = Some p"
  shows "fetchAllPatches rid nowTs (Returned responses) st
           = (Returned True, st\<lparr>inProgressRequest := None\<rparr>)"
  using assms
  by (simp add: fetchAllPatches_def fetchAllPatches_begin_def promiseSettled_def)

theorem fetchAllPatches_in_progress_answers_true_witness:
  "inProgressRequest exampleStoreFetching = Some 0
   \<and> error (exampleFailedBatch ! 1) = Some ''request failed''
   \<and> fetchAllPatches (Some ''rad:z3gqcJUoA1n9'') 2 (Returned exampleFailedBatch) exampleStoreFetching
       = (Returned True, exampleStoreFetching\<lparr>inProgressRequest := None\<rparr>)"
proof -
  have a: "inProgressRequest exampleStoreFetching = Some 0"
    by (simp add: exampleStoreFetching_def)
  have b: "error (exampleFailedBatch ! 1) = Some ''request failed''"
    by (simp add: exampleFailedBatch_def errorResult_def)
  show ?thesis
    using a b fetchAllPatches_in_progress_answers_true [OF a] by blast
qed

text \<open>
  C10, as the code has it. \<open>lastFetchedTs\<close> becomes the timestamp of the invocation in
  the synchronous part that issues the batch, that is, when no request is in progress
  and the project id is resolved; nothing that follows the \<open>await\<close> changes it, so it
  stays set whatever the batch gives. Two paths leave it as it was: the one on which the
  project id is not resolved, and the one that finds a request in progress and waits
  for it.
\<close>

theorem fetchAllPatches_lastFetchedTs:
  "lastFetchedTs (snd (fetchAllPatches rid nowTs settled st))
     = (if inProgressRequest st = None \<and> truthy rid then Some nowTs else lastFetchedTs st)
   \<and> lastFetchedTs (snd (fetchAllPatches_begin rid nowTs st))
     = (if inProgressRequest st = None \<and> truthy rid then Some nowTs else lastFetchedTs st)
   \<and> length (adapterBatches (snd (fetchAllPatches_begin rid nowTs st)))
     = (if inProgressRequest st = None \<and> truthy rid then Suc (length (adapterBatches st))
        else length (adapterBatches st))
   \<and> lastFetchedTs (snd (fetchAllPatches_resume task settled st)) = lastFetchedTs st
   \<and> (fst (fetchAllPatches_begin rid nowTs st) = Done False)
        = (inProgressRequest st = None \<and> \<not> truthy rid)"
proof -
  have resume: "lastFetchedTs (snd (fetchAllPatches_resume t s x)) = lastFetchedTs x" for t s x
    by (cases "(t, s, x)" rule: fetchAllPatches_resume.cases) (simp_all add: Let_def)
  have start: "lastFetchedTs (snd (fetchAllPatches_begin rid nowTs st))
     = (if inProgressRequest st = None \<and> truthy rid then Some nowTs else lastFetchedTs st)"
    by (simp add: fetchAllPatches_begin_def truthy_def Let_def split: option.splits)
  have batches: "length (adapterBatches (snd (fetchAllPatches_begin rid nowTs st)))
     = (if inProgressRequest st = None \<and> truthy rid then Suc (length (adapterBatches st))
        else length (adapterBatches st))"
    by (simp add: fetchAllPatches_begin_def truthy_def Let_def split: option.splits)
  have whole: "lastFetchedTs (snd (fetchAllPatches rid nowTs settled st))
     = lastFetchedTs (snd (fetchAllPatches_begin rid nowTs st))"
    by (simp add: fetchAllPatches_def resume promiseSettled_def
          split: prod.splits fetchAllTask.splits)
  have path: "(fst (fetchAllPatches_begin rid nowTs st) = Done False)
        = (inProgressRequest st = None \<and> \<not> truthy rid)"
    by (simp add: fetchAllPatches_begin_def truthy_def Let_def split: option.splits)
  show ?thesis using resume start batches whole path by simp
qed

text \<open>
  An invocation made while a request is in progress does not take the path on which the
  project id is not resolved, and it leaves \<open>lastFetchedTs\<close> as it was.
\<close>

theorem fetchAllPatches_lastFetchedTs_counterexample:
  "\<not> (\<forall>st rid nowTs settled.
         fst (fetchAllPatches_begin rid nowTs st) = Done False
         \<or> lastFetchedTs (snd (fetchAllPatches rid nowTs settled st)) = Some nowTs)"
proof
  assume "\<forall>st rid nowTs settled.
         fst (fetchAllPatches_begin rid nowTs st) = Done False
         \<or> lastFetchedTs (snd (fetchAllPatches rid nowTs settled st)) = Some nowTs"
  then have "fst (fetchAllPatches_begin (Some ''rad:z3gqcJUoA1n9'') 2 exampleStoreFetching)
        = Done False
      \<or> lastFetchedTs (snd (fetchAllPatches (Some ''rad:z3gqcJUoA1n9'') 2 (Returned exampleBatch)
        exampleStoreFetching)) = Some 2"
    by blast
  moreover have "fst (fetchAllPatches_begin (Some ''rad:z3gqcJUoA1n9'') 2 exampleStoreFetching)
      = AwaitInProgress 0"
    by (simp add: fetchAllPatches_begin_def exampleStoreFetching_def exampleStore_def)
  moreover have "lastFetchedTs (snd (fetchAllPatches (Some ''rad:z3gqcJUoA1n9'') 2
      (Returned exampleBatch) exampleStoreFetching)) = Some 1"
    by (simp add: fetchAllPatches_def fetchAllPatches_begin_def promiseSettled_def
          exampleStoreFetching_def exampleStore_def)
  ultimately show False by simp
qed

text \<open>
  C1, at the inputs where the code departs from it. Two invocations overlap, and one of
  the per-status results carries an error: the adapter receives one batch, the
  invocation that issued it answers \<open>false\<close>, and the invocation that waited for the
  request in progress answers \<open>true\<close>.
\<close>

theorem twoConcurrentFetches_coalesced_caller_reports_true:
  assumes "inProgressRequest st = None" and "r \<noteq> []"
    and "\<exists>response \<in> set responses. error response \<noteq> None"
  shows "twoConcurrentFetches (Some r) nowTs1 nowTs2 (Returned responses) st
           = (Returned False, Returned True,
              st\<lparr>lastFetchedTs := Some nowTs1, adapterBatches := adapterBatches st @ [r]\<rparr>)"
proof -
  have "responseErrors responses \<noteq> []"
    using assms(3) by (simp add: responseErrors_empty_iff)
  then show ?thesis
    using assms(1,2)
    by (simp add: twoConcurrentFetches_def fetchAllPatches_begin_def promiseSettled_def Let_def)
qed

theorem twoConcurrentFetches_coalesced_caller_reports_true_witness:
  "inProgressRequest exampleStore = None \<and> ''rad:z3gqcJUoA1n9'' \<noteq> []
   \<and> twoConcurrentFetches (Some ''rad:z3gqcJUoA1n9'') 2 3 (Returned exampleFailedBatch) exampleStore
       = (Returned False, Returned True,
          exampleStore\<lparr>lastFetchedTs := Some 2, adapterBatches := [''rad:z3gqcJUoA1n9'']\<rparr>)"
proof -
  have a: "inProgressRequest exampleStore = None" by (simp add: exampleStore_def)
  have b: "''rad:z3gqcJUoA1n9'' \<noteq> []" by simp
  have failed: "\<exists>response \<in> set exampleFailedBatch. error response \<noteq> None"
    by (simp add: exampleFailedBatch_def errorResult_def dataResult_def)
  have none: "adapterBatches exampleStore = []" by (simp add: exampleStore_def)
  show ?thesis
    using a b none twoConcurrentFetches_coalesced_caller_reports_true [OF a b failed, of 2 3]
    by simp
qed

section \<open>The checked-out patch\<close>

lemma matchHexCharsAfterPatch_None_iff:
  "matchHexCharsAfterPatch b = None \<longleftrightarrow> \<not> strIncludes b ''patch/''"
  by (induction b) auto

lemma matchHexCharsAfterPatch_prefixed:
  "matchHexCharsAfterPatch (''patch/'' @ h) = Some (takeWhile isHexChar h)"
  by simp

lemma find_first:
  assumes "\<forall>q \<in> set before. \<not> P q" and "P r"
  shows "find P (before @ r # rest) = Some r"
  using assms by (induction before) auto

lemma find_first_iff:
  "find P xs = Some r \<longleftrightarrow> (\<exists>before rest. xs = before @ r # rest \<and> (\<forall>q \<in> set before. \<not> P q) \<and> P r)"
proof
  assume "find P xs = Some r"
  then show "\<exists>before rest. xs = before @ r # rest \<and> (\<forall>q \<in> set before. \<not> P q) \<and> P r"
  proof (induction xs)
    case Nil
    then show ?case by simp
  next
    case (Cons a xs)
    show ?case
    proof (cases "P a")
      case True
      with Cons.prems have "a = r" by simp
      with True have "a # xs = [] @ r # xs \<and> (\<forall>q \<in> set []. \<not> P q) \<and> P r" by simp
      then show ?thesis by blast
    next
      case False
      with Cons obtain before rest where
        "xs = before @ r # rest" "\<forall>q \<in> set before. \<not> P q" "P r" by auto
      with False have "a # xs = (a # before) @ r # rest
          \<and> (\<forall>q \<in> set (a # before). \<not> P q) \<and> P r" by simp
      then show ?thesis by blast
    qed
  qed
next
  assume "\<exists>before rest. xs = before @ r # rest \<and> (\<forall>q \<in> set before. \<not> P q) \<and> P r"
  then show "find P xs = Some r" by (auto intro: find_first)
qed

text \<open>
  C8, as the code has it. For a branch \<open>patch/<hex>\<close> the checked-out patch is what
  \<open>findPatchById\<close> answers for the hexadecimal fragment: the first patch of the cache
  whose id contains the fragment, and \<open>undefined\<close> when there is none. A cached patch
  whose id starts with the fragment is therefore the one selected when no patch before
  it in the cache has an id that contains the fragment. A branch name without
  \<open>patch/\<close>, and no branch at all, give \<open>undefined\<close>. Evaluating the derivation leaves
  the collection and its objects as they were.
\<close>

theorem checkedOutPatch_derivation:
  "(h \<noteq> [] \<and> list_all isHexChar h \<longrightarrow>
      fst (checkedOutPatch (Some (''patch/'' @ h)) st) = findPatchById st h
      \<and> (fst (checkedOutPatch (Some (''patch/'' @ h)) st) = Some r
           \<longleftrightarrow> (\<exists>before rest. patches st = Some (before @ r # rest)
                 \<and> (\<forall>q \<in> set before. \<not> sublist h (patchId (heap st ! q)))
                 \<and> sublist h (patchId (heap st ! r))))
      \<and> (patches st = Some (before @ r # rest)
           \<and> (\<forall>q \<in> set before. \<not> sublist h (patchId (heap st ! q)))
           \<and> prefix h (patchId (heap st ! r))
           \<longrightarrow> fst (checkedOutPatch (Some (''patch/'' @ h)) st) = Some r))
   \<and> (\<not> sublist ''patch/'' branch \<longrightarrow> fst (checkedOutPatch (Some branch) st) = None)
   \<and> fst (checkedOutPatch None st) = None
   \<and> patches (snd (checkedOutPatch currentBranch st)) = patches st
   \<and> heap (snd (checkedOutPatch currentBranch st)) = heap st"
proof -
  have resolved: "fst (checkedOutPatch (Some (''patch/'' @ h)) st) = findPatchById st h"
    if "h \<noteq> []" and "list_all isHexChar h"
  proof -
    have tw: "takeWhile isHexChar h = h"
      using that(2) by (simp add: list_all_iff)
    show ?thesis
      using that(1)
      by (simp add: checkedOutPatch_def findPatchById_def Let_def tw split: option.splits)
  qed
  have first: "findPatchById st h = Some r
      \<longleftrightarrow> (\<exists>before rest. patches st = Some (before @ r # rest)
            \<and> (\<forall>q \<in> set before. \<not> sublist h (patchId (heap st ! q)))
            \<and> sublist h (patchId (heap st ! r)))"
    by (cases "patches st") (simp_all add: findPatchById_def find_first_iff includes_sublist)
  have starts: "findPatchById st h = Some r"
    if "patches st = Some (before @ r # rest)"
      and "\<forall>q \<in> set before. \<not> sublist h (patchId (heap st ! q))"
      and "prefix h (patchId (heap st ! r))"
    using that first prefix_imp_sublist by blast
  have none: "fst (checkedOutPatch (Some branch) st) = None" if "\<not> sublist ''patch/'' branch"
    using that matchHexCharsAfterPatch_None_iff [of branch]
    by (simp add: checkedOutPatch_def Let_def includes_sublist)
  have undef: "fst (checkedOutPatch None st) = None"
    by (simp add: checkedOutPatch_def Let_def)
  have frame: "patches (snd (checkedOutPatch currentBranch st)) = patches st
      \<and> heap (snd (checkedOutPatch currentBranch st)) = heap st"
    by (simp add: checkedOutPatch_def Let_def)
  show ?thesis using resolved first starts none undef frame by simp
qed

text \<open>
  With the branch \<open>patch/ab12cd34\<close> and the cached ids \<open>00ab12cd34\<close> and
  \<open>ab12cd34ff\<close>, in this order, the patch whose id starts with the fragment is not the
  one selected.
\<close>

theorem checkedOutPatch_derivation_counterexample:
  "\<not> (\<forall>st refs r. patches st = Some refs \<and> r \<in> set refs
          \<and> prefix ''ab12cd34'' (patchId (heap st ! r))
        \<longrightarrow> fst (checkedOutPatch (Some ''patch/ab12cd34'') st) = Some r)"
proof
  assume "\<forall>st refs r. patches st = Some refs \<and> r \<in> set refs
          \<and> prefix ''ab12cd34'' (patchId (heap st ! r))
        \<longrightarrow> fst (checkedOutPatch (Some ''patch/ab12cd34'') st) = Some r"
  then have "patches exampleStore = Some [0, 1] \<and> 1 \<in> set [0, 1::nat]
          \<and> prefix ''ab12cd34'' (patchId (heap exampleStore ! 1))
        \<longrightarrow> fst (checkedOutPatch (Some ''patch/ab12cd34'') exampleStore) = Some 1"
    by blast
  moreover have "patches exampleStore = Some [0, 1]" by (simp add: exampleStore_def)
  moreover have "prefix ''ab12cd34'' (patchId (heap exampleStore ! 1))"
    by (simp add: exampleStore_def augment_def examplePatch_def)
  moreover have "fst (checkedOutPatch (Some ''patch/ab12cd34'') exampleStore) = Some 0"
    by (simp add: checkedOutPatch_def findPatchById_def Let_def isHexChar_def exampleStore_def
          augment_def examplePatch_def)
  ultimately show False by simp
qed

text \<open>
  With a third patch \<open>7f00aa11bb\<close> cached first and \<open>ab12cd34ff\<close> second, the second
  is selected.
\<close>

theorem checkedOutPatch_derivation_witness:
  "''ab12cd34'' \<noteq> [] \<and> list_all isHexChar ''ab12cd34''
   \<and> patches exampleStoreOfThree = Some ([2] @ 1 # [0])
   \<and> \<not> sublist ''ab12cd34'' (patchId (heap exampleStoreOfThree ! 2))
   \<and> prefix ''ab12cd34'' (patchId (heap exampleStoreOfThree ! 1))
   \<and> sublist ''ab12cd34'' (patchId (heap exampleStoreOfThree ! 0))
   \<and> fst (checkedOutPatch (Some ''patch/ab12cd34'') exampleStoreOfThree) = Some 1
   \<and> findPatchById exampleStoreOfThree ''ab12cd34'' = Some 1
   \<and> \<not> sublist ''patch/'' ''master''
   \<and> fst (checkedOutPatch (Some ''master'') exampleStoreOfThree) = None
   \<and> patches (snd (checkedOutPatch (Some ''patch/ab12cd34'') exampleStoreOfThree))
       = patches exampleStoreOfThree"
proof -
  have hex: "''ab12cd34'' \<noteq> [] \<and> list_all isHexChar ''ab12cd34''"
    by (simp add: isHexChar_def)
  have a: "patches exampleStoreOfThree = Some ([2] @ 1 # [0])"
    by (simp add: exampleStoreOfThree_def)
  have ids: "patchId (heap exampleStoreOfThree ! 2) = ''7f00aa11bb''
      \<and> patchId (heap exampleStoreOfThree ! 1) = ''ab12cd34ff''
      \<and> patchId (heap exampleStoreOfThree ! 0) = ''00ab12cd34''"
    by (simp add: exampleStoreOfThree_def exampleStore_def augment_def examplePatch_def)
  have b2: "\<not> sublist ''ab12cd34'' (patchId (heap exampleStoreOfThree ! 2))"
    using ids by (simp add: includes_sublist [symmetric])
  have b1: "prefix ''ab12cd34'' (patchId (heap exampleStoreOfThree ! 1))"
    using ids by simp
  have b0: "sublist ''ab12cd34'' (patchId (heap exampleStoreOfThree ! 0))"
    using ids by (simp add: includes_sublist [symmetric])
  have e: "\<forall>q \<in> set [2::nat]. \<not> sublist ''ab12cd34'' (patchId (heap exampleStoreOfThree ! q))"
    using b2 by simp
  have c: "\<not> sublist ''patch/'' ''master''"
    by (simp add: includes_sublist [symmetric])
  have eq: "''patch/'' @ ''ab12cd34'' = ''patch/ab12cd34''" by simp
  note inst = checkedOutPatch_derivation
      [of "''ab12cd34''" exampleStoreOfThree 1 "[2]" "[0]" "''master''"
          "Some ''patch/ab12cd34''", unfolded eq]
  have f1: "fst (checkedOutPatch (Some ''patch/ab12cd34'') exampleStoreOfThree) = Some 1"
    using inst hex a b1 e by blast
  have f2: "fst (checkedOutPatch (Some ''patch/ab12cd34'') exampleStoreOfThree)
      = findPatchById exampleStoreOfThree ''ab12cd34''"
    using inst hex by blast
  have f: "fst (checkedOutPatch (Some ''patch/ab12cd34'') exampleStoreOfThree) = Some 1
      \<and> findPatchById exampleStoreOfThree ''ab12cd34'' = Some 1"
    using f1 f2 by metis
  have g: "fst (checkedOutPatch (Some ''master'') exampleStoreOfThree) = None"
    using inst c by blast
  have h: "patches (snd (checkedOutPatch (Some ''patch/ab12cd34'') exampleStoreOfThree))
      = patches exampleStoreOfThree"
    using inst by blast
  show ?thesis using hex a b2 b1 b0 f g h c by blast
qed

section \<open>Selecting the node connection\<close>

lemma getNodeConnection_memoized:
  "nodeConnection st = Some c \<Longrightarrow> getNodeConnection u config st = (Returned c, st)"
  by (simp add: getNodeConnection_def)

text \<open>
  C5, at the inputs where the code departs from it. \<open>getConfig\<close> has no case for the key
  \<open>radicle.advanced.useNodeApi\<close>, so the first call never reads the flag: with the flag
  set and with the flag cleared \<open>getNodeConnection\<close> does the same. When
  \<open>assertUnreachable\<close> throws, the call throws and no adapter is constructed or
  memoized; when it returns \<open>undefined\<close>, the wire adapter is constructed although the
  flag is set.
\<close>

theorem getNodeConnection_never_reads_flag:
  "getNodeConnection u (config(''radicle.advanced.useNodeApi'' \<mapsto> ConfigBool True)) st
     = getNodeConnection u (config(''radicle.advanced.useNodeApi'' \<mapsto> ConfigBool False)) st
   \<and> getNodeConnection (Threw e) (config(''radicle.advanced.useNodeApi'' \<mapsto> ConfigBool True))
        \<lparr>nodeConnection = None, constructed = 0\<rparr>
     = (Threw e, \<lparr>nodeConnection = None, constructed = 0\<rparr>)
   \<and> getNodeConnection (Returned None) (config(''radicle.advanced.useNodeApi'' \<mapsto> ConfigBool True))
        \<lparr>nodeConnection = None, constructed = 0\<rparr>
     = (Returned (ClassicNode, 0), \<lparr>nodeConnection = Some (ClassicNode, 0), constructed = 1\<rparr>)"
proof -
  have unread: "getConfig u c ''radicle.advanced.useNodeApi'' = u" for u c
    by (simp add: getConfig_def)
  show ?thesis
    by (simp add: getNodeConnection_def unread truthyConfig_def Let_def split: option.splits)
qed

section \<open>The shape of the results\<close>







section \<open>Merging a fetched patch into the cache\<close>

lemma find_SomeD: "find P xs = Some x \<Longrightarrow> P x \<and> x \<in> set xs"
  by (induction xs) (auto split: if_splits)

lemma find_append_last:
  "find P (xs @ [y]) = (case find P xs of None \<Rightarrow> (if P y then Some y else None) | Some x \<Rightarrow> Some x)"
  by (induction xs) auto

lemma find_update_same:
  assumes "find (\<lambda>q. P (h ! q)) refs = Some r" and "r < length h" and "P v"
  shows "find (\<lambda>q. P (h[r := v] ! q)) refs = Some r"
  using assms
proof (induction refs)
  case Nil
  then show ?case by simp
next
  case (Cons a refs)
  show ?case
  proof (cases "a = r")
    case True
    with Cons.prems show ?thesis by simp
  next
    case False
    have "\<not> P (h ! a)"
    proof
      assume "P (h ! a)"
      with Cons.prems(1) have "a = r" by simp
      with False show False by simp
    qed
    with False Cons show ?thesis by simp
  qed
qed

lemma find_append_new:
  assumes "find (\<lambda>q. P (h ! q)) refs = None" and "list_all (\<lambda>q. q < length h) refs" and "P v"
  shows "find (\<lambda>q. P ((h @ [v]) ! q)) (refs @ [length h]) = Some (length h)"
proof -
  have "find (\<lambda>q. P ((h @ [v]) ! q)) refs = find (\<lambda>q. P (h ! q)) refs"
    using assms(2) by (intro find_cong) (auto simp: list_all_iff nth_append)
  then show ?thesis
    using assms(1,3) by (simp add: find_append_last)
qed

lemma findPatchById_valid:
  "wfStore st \<Longrightarrow> findPatchById st x = Some r \<Longrightarrow> r < length (heap st) \<and> r \<in> set (cachedRefs st)"
  by (auto simp: wfStore_def findPatchById_def cachedRefs_def list_all_iff find_Some_iff
        split: option.splits)

lemma patchId_augment [simp]: "patchId (augment t p) = patchId p"
  by (simp add: augment_def)

lemma refetchPatch_twice:
  assumes "wfStore st"
  shows "refetchPatch ridResult t2 fetchResult (snd (refetchPatch ridResult t1 fetchResult st))
           = refetchPatch ridResult t2 fetchResult st"
proof (cases "truthy (data ridResult) \<and> error fetchResult = None \<and> data fetchResult \<noteq> None")
  case False
  then show ?thesis
    by (auto simp: refetchPatch_def Let_def split: option.splits)
next
  case True
  then obtain p where p: "data fetchResult = Some p" by auto
  define P where "P = (\<lambda>a::augmentedPatch. strIncludes (patchId a) (patchId p))"
  have Paug: "P (augment t p)" for t by (simp add: P_def)
  show ?thesis
  proof (cases "findPatchById st (patchId p)")
    case (Some r)
    then have r: "r < length (heap st)" using findPatchById_valid [OF assms] by blast
    from Some obtain refs where refs: "patches st = Some refs"
      and f: "find (\<lambda>q. P (heap st ! q)) refs = Some r"
      by (auto simp: findPatchById_def P_def split: option.splits)
    have st1: "snd (refetchPatch ridResult t1 fetchResult st)
        = st\<lparr>heap := (heap st)[r := augment t1 p]\<rparr>"
      using True p Some by (simp add: refetchPatch_def Let_def)
    have "find (\<lambda>q. P ((heap st)[r := augment t1 p] ! q)) refs = Some r"
      using find_update_same [OF f r Paug] .
    then have again: "findPatchById (st\<lparr>heap := (heap st)[r := augment t1 p]\<rparr>) (patchId p) = Some r"
      using refs by (simp add: findPatchById_def P_def)
    show ?thesis
      using True p Some again by (simp add: st1) (simp add: refetchPatch_def Let_def)
  next
    case None
    define refs where "refs = cachedRefs st"
    have valid: "list_all (\<lambda>q. q < length (heap st)) refs"
      using assms by (auto simp: wfStore_def refs_def cachedRefs_def split: option.splits)
    have f: "find (\<lambda>q. P (heap st ! q)) refs = None"
      using None by (auto simp: findPatchById_def P_def refs_def cachedRefs_def split: option.splits)
    have st1: "snd (refetchPatch ridResult t1 fetchResult st)
        = st\<lparr>heap := heap st @ [augment t1 p], patches := Some (refs @ [length (heap st)])\<rparr>"
      using True p None by (simp add: refetchPatch_def Let_def refs_def cachedRefs_def)
    have again: "findPatchById (st\<lparr>heap := heap st @ [augment t1 p],
          patches := Some (refs @ [length (heap st)])\<rparr>) (patchId p) = Some (length (heap st))"
      using find_append_new [OF f valid Paug] by (simp add: findPatchById_def P_def)
    show ?thesis
      using True p None again
      by (simp add: st1) (simp add: refetchPatch_def Let_def refs_def cachedRefs_def)
  qed
qed

lemma findPatchById_whole_id:
  assumes "distinct (cachedIds st)"
    and "\<forall>i \<in> set (cachedIds st). strIncludes i (patchId p) \<longrightarrow> i = patchId p"
    and "r \<in> set (cachedRefs st)" and "patchId (heap st ! r) = patchId p"
  shows "findPatchById st (patchId p) = Some r"
proof -
  from assms(3) obtain refs where refs: "patches st = Some refs" and r: "r \<in> set refs"
    by (cases "patches st") (auto simp: cachedRefs_def)
  have ids: "cachedIds st = map (\<lambda>q. patchId (heap st ! q)) refs"
    using refs by (simp add: cachedIds_def)
  have "find (\<lambda>q. strIncludes (patchId (heap st ! q)) (patchId p)) refs \<noteq> None"
    using r assms(4) by (auto simp: find_None_iff)
  then obtain q where q: "find (\<lambda>q. strIncludes (patchId (heap st ! q)) (patchId p)) refs = Some q"
    by auto
  then have "strIncludes (patchId (heap st ! q)) (patchId p)" and qin: "q \<in> set refs"
    using find_SomeD [OF q] by auto
  then have "patchId (heap st ! q) = patchId p"
    using assms(2) ids by auto
  then have "patchId (heap st ! q) = patchId (heap st ! r)" using assms(4) by simp
  moreover have "inj_on (\<lambda>q. patchId (heap st ! q)) (set refs)"
    using assms(1) ids by (simp add: distinct_map)
  ultimately have "q = r" using qin r by (auto dest: inj_onD)
  with q refs show ?thesis by (simp add: findPatchById_def)
qed

lemma findPatchById_absent:
  assumes "\<forall>i \<in> set (cachedIds st). strIncludes i (patchId p) \<longrightarrow> i = patchId p"
    and "patchId p \<notin> set (cachedIds st)"
  shows "findPatchById st (patchId p) = None"
proof (cases "patches st")
  case None
  then show ?thesis by (simp add: findPatchById_def)
next
  case (Some refs)
  have "\<not> strIncludes (patchId (heap st ! q)) (patchId p)" if "q \<in> set refs" for q
  proof
    assume inc: "strIncludes (patchId (heap st ! q)) (patchId p)"
    have "patchId (heap st ! q) \<in> set (cachedIds st)"
      using that Some by (simp add: cachedIds_def)
    with inc assms show False by metis
  qed
  then show ?thesis using Some by (simp add: findPatchById_def find_None_iff)
qed

lemma refetchPatch_overwrites:
  assumes "truthy (data ridResult)" and "findPatchById st (patchId p) = Some r"
  shows "refetchPatch ridResult t (dataResult p) st
           = (Returned emptyResult, st\<lparr>heap := (heap st)[r := augment t p]\<rparr>)"
  using assms by (simp add: refetchPatch_def dataResult_def Let_def)

lemma refetchPatch_appends:
  assumes "truthy (data ridResult)" and "findPatchById st (patchId p) = None"
  shows "refetchPatch ridResult t (dataResult p) st
           = (Returned emptyResult,
              st\<lparr>heap := heap st @ [augment t p],
                 patches := Some (cachedRefs st @ [length (heap st)])\<rparr>)"
  using assms by (simp add: refetchPatch_def dataResult_def Let_def cachedRefs_def)

lemma cachedIds_overwritten:
  assumes "findPatchById st (patchId p) = Some r"
    and "\<forall>i \<in> set (cachedIds st). strIncludes i (patchId p) \<longrightarrow> i = patchId p"
  shows "cachedIds (st\<lparr>heap := (heap st)[r := augment t p]\<rparr>) = cachedIds st"
proof -
  from assms(1) obtain refs where refs: "patches st = Some refs"
    and f: "find (\<lambda>q. strIncludes (patchId (heap st ! q)) (patchId p)) refs = Some r"
    by (auto simp: findPatchById_def split: option.splits)
  have "strIncludes (patchId (heap st ! r)) (patchId p)" and "r \<in> set refs"
    using find_SomeD [OF f] by auto
  then have same: "patchId (heap st ! r) = patchId p"
    using assms(2) refs by (auto simp: cachedIds_def)
  have "patchId ((heap st)[r := augment t p] ! q) = patchId (heap st ! q)" for q
    using same by (cases "q = r"; cases "r < length (heap st)") (simp_all add: list_update_beyond)
  then show ?thesis using refs by (simp add: cachedIds_def)
qed

lemma cachedIds_appended:
  assumes "wfStore st"
  shows "cachedIds (st\<lparr>heap := heap st @ [augment t p],
            patches := Some (cachedRefs st @ [length (heap st)])\<rparr>) = cachedIds st @ [patchId p]"
  using assms
  by (auto simp: cachedIds_def cachedRefs_def wfStore_def list_all_iff nth_append
        split: option.splits)

lemma wfStore_refetchPatch:
  assumes "wfStore st"
  shows "wfStore (snd (refetchPatch ridResult t fetchResult st))"
proof -
  have a: "wfStore (st\<lparr>heap := (heap st)[r := v]\<rparr>)" for r v
    using assms by (simp add: wfStore_def split: option.splits)
  have b: "wfStore (st\<lparr>heap := heap st @ [v], patches := Some (refs @ [length (heap st)])\<rparr>)"
    if "refs = (case patches st of None \<Rightarrow> [] | Some refs \<Rightarrow> refs)" for v refs
    using assms that by (auto simp: wfStore_def list_all_iff split: option.splits)
  show ?thesis
    using assms a b by (auto simp: refetchPatch_def Let_def split: option.splits)
qed

lemma strIncludes_same_length:
  assumes "strIncludes s needle" and "length s = length needle"
  shows "s = needle"
proof -
  from assms(1) obtain ps ss where "s = ps @ needle @ ss"
    by (auto simp: includes_sublist sublist_def)
  with assms(2) show ?thesis by simp
qed

lemma cachedObjects_content:
  assumes "patches a = patches b"
    and "\<forall>q \<in> set (cachedRefs a). patchOf (heap a ! q) = patchOf (heap b ! q)"
  shows "map patchOf (cachedObjects a) = map patchOf (cachedObjects b)"
  using assms
  by (cases "patches b") (simp_all add: cachedObjects_def cachedPatches_def cachedRefs_def)

lemma cachedIds_member:
  "i \<in> set (cachedIds st) \<longleftrightarrow> (\<exists>r \<in> set (cachedRefs st). patchId (heap st ! r) = i)"
  by (cases "patches st") (auto simp: cachedIds_def cachedRefs_def)

text \<open>
  C4. The ids of patches are hashes of one length, and the ids of the cached patches are
  distinct. In a well-formed store, with \<open>st1\<close> the store after a first call of
  \<open>refetchPatch\<close> and \<open>st2\<close> the store after a second call with the same remote data:
  the second call leaves the store as one call does, the cached patches of \<open>st2\<close> have
  the content of those of \<open>st1\<close>, and the array of references is the same. When a
  cached patch has the fetched id, both calls overwrite that object in place: the
  references and every other object stay as they were, and the object holds the fetched
  patch and the timestamp of the call. Otherwise the fetched patch is appended as a new
  object. The cached ids stay distinct: the fetched id is added only when it was not
  cached.
\<close>

theorem refetchPatch_merge_by_id:
  assumes "wfStore st" and "truthy (data ridResult)" and "fetchResult = dataResult p"
    and "distinct (cachedIds st)"
    and "\<forall>i \<in> set (cachedIds st). length i = length (patchId p)"
    and "st1 = snd (refetchPatch ridResult t1 fetchResult st)"
    and "st2 = snd (refetchPatch ridResult t2 fetchResult st1)"
  shows "refetchPatch ridResult t2 fetchResult st1 = refetchPatch ridResult t2 fetchResult st
   \<and> map patchOf (cachedObjects st2) = map patchOf (cachedObjects st1)
   \<and> patches st2 = patches st1
   \<and> (\<forall>r \<in> set (cachedRefs st). patchId (heap st ! r) = patchId p \<longrightarrow>
         patches st1 = patches st \<and> length (heap st1) = length (heap st)
         \<and> patchOf (heap st1 ! r) = p \<and> patchLastFetchedTs (heap st1 ! r) = t1
         \<and> patchOf (heap st2 ! r) = p \<and> patchLastFetchedTs (heap st2 ! r) = t2
         \<and> (\<forall>q. q \<noteq> r \<longrightarrow> heap st1 ! q = heap st ! q \<and> heap st2 ! q = heap st ! q))
   \<and> (patchId p \<notin> set (cachedIds st) \<longrightarrow>
         patches st1 = Some (cachedRefs st @ [length (heap st)])
         \<and> length (heap st1) = Suc (length (heap st))
         \<and> take (length (heap st)) (heap st1) = heap st
         \<and> patchOf (heap st1 ! length (heap st)) = p
         \<and> patchLastFetchedTs (heap st1 ! length (heap st)) = t1)
   \<and> cachedIds st1
       = (if patchId p \<in> set (cachedIds st) then cachedIds st else cachedIds st @ [patchId p])
   \<and> distinct (cachedIds st1) \<and> cachedIds st2 = cachedIds st1
   \<and> wfStore st1"
proof -
  have whole: "\<forall>i \<in> set (cachedIds st). strIncludes i (patchId p) \<longrightarrow> i = patchId p"
    using assms(5) strIncludes_same_length by blast
  have twice: "refetchPatch ridResult t2 fetchResult st1 = refetchPatch ridResult t2 fetchResult st"
    unfolding assms(6) by (rule refetchPatch_twice [OF assms(1)])
  have st2: "st2 = snd (refetchPatch ridResult t2 fetchResult st)"
    unfolding assms(7) twice ..
  have wf1: "wfStore st1"
    unfolding assms(6) by (rule wfStore_refetchPatch [OF assms(1)])
  show ?thesis
  proof (cases "patchId p \<in> set (cachedIds st)")
    case True
    then obtain r where r: "r \<in> set (cachedRefs st)" "patchId (heap st ! r) = patchId p"
      by (auto simp: cachedIds_member)
    have uniq: "r' = r" if "r' \<in> set (cachedRefs st)" "patchId (heap st ! r') = patchId p" for r'
      using findPatchById_whole_id [OF assms(4) whole that]
        findPatchById_whole_id [OF assms(4) whole r] by simp
    have found: "findPatchById st (patchId p) = Some r"
      by (rule findPatchById_whole_id [OF assms(4) whole r])
    have valid: "r < length (heap st)"
      using findPatchById_valid [OF assms(1) found] by simp
    have s1: "st1 = st\<lparr>heap := (heap st)[r := augment t1 p]\<rparr>"
      unfolding assms(6,3) by (simp add: refetchPatch_overwrites [OF assms(2) found])
    have s2: "st2 = st\<lparr>heap := (heap st)[r := augment t2 p]\<rparr>"
      unfolding st2 assms(3) by (simp add: refetchPatch_overwrites [OF assms(2) found])
    have ids1: "cachedIds st1 = cachedIds st"
      unfolding s1 by (rule cachedIds_overwritten [OF found whole])
    have ids2: "cachedIds st2 = cachedIds st"
      unfolding s2 by (rule cachedIds_overwritten [OF found whole])
    have content: "map patchOf (cachedObjects st2) = map patchOf (cachedObjects st1)"
    proof (rule cachedObjects_content)
      show "patches st2 = patches st1" by (simp add: s1 s2)
      show "\<forall>q \<in> set (cachedRefs st2). patchOf (heap st2 ! q) = patchOf (heap st1 ! q)"
        using valid by (simp add: s1 s2 nth_list_update)
    qed
    have at_r: "\<forall>r' \<in> set (cachedRefs st). patchId (heap st ! r') = patchId p \<longrightarrow>
         patches st1 = patches st \<and> length (heap st1) = length (heap st)
         \<and> patchOf (heap st1 ! r') = p \<and> patchLastFetchedTs (heap st1 ! r') = t1
         \<and> patchOf (heap st2 ! r') = p \<and> patchLastFetchedTs (heap st2 ! r') = t2
         \<and> (\<forall>q. q \<noteq> r' \<longrightarrow> heap st1 ! q = heap st ! q \<and> heap st2 ! q = heap st ! q)"
    proof (intro ballI impI)
      fix r' assume "r' \<in> set (cachedRefs st)" "patchId (heap st ! r') = patchId p"
      then have "r' = r" by (rule uniq)
      then show "patches st1 = patches st \<and> length (heap st1) = length (heap st)
         \<and> patchOf (heap st1 ! r') = p \<and> patchLastFetchedTs (heap st1 ! r') = t1
         \<and> patchOf (heap st2 ! r') = p \<and> patchLastFetchedTs (heap st2 ! r') = t2
         \<and> (\<forall>q. q \<noteq> r' \<longrightarrow> heap st1 ! q = heap st ! q \<and> heap st2 ! q = heap st ! q)"
        using valid by (simp add: s1 s2)
    qed
    show ?thesis
      using True twice content at_r ids1 ids2 assms(4) wf1 by (simp add: s1 s2)
  next
    case False
    have absent: "findPatchById st (patchId p) = None"
      by (rule findPatchById_absent [OF whole False])
    have s1: "st1 = st\<lparr>heap := heap st @ [augment t1 p],
                      patches := Some (cachedRefs st @ [length (heap st)])\<rparr>"
      unfolding assms(6,3) by (simp add: refetchPatch_appends [OF assms(2) absent])
    have s2: "st2 = st\<lparr>heap := heap st @ [augment t2 p],
                      patches := Some (cachedRefs st @ [length (heap st)])\<rparr>"
      unfolding st2 assms(3) by (simp add: refetchPatch_appends [OF assms(2) absent])
    have ids1: "cachedIds st1 = cachedIds st @ [patchId p]"
      unfolding s1 by (rule cachedIds_appended [OF assms(1)])
    have ids2: "cachedIds st2 = cachedIds st @ [patchId p]"
      unfolding s2 by (rule cachedIds_appended [OF assms(1)])
    have refs_valid: "\<forall>q \<in> set (cachedRefs st). q < length (heap st)"
      using assms(1) by (cases "patches st") (auto simp: wfStore_def cachedRefs_def list_all_iff)
    have content: "map patchOf (cachedObjects st2) = map patchOf (cachedObjects st1)"
    proof (rule cachedObjects_content)
      show "patches st2 = patches st1" by (simp add: s1 s2)
      show "\<forall>q \<in> set (cachedRefs st2). patchOf (heap st2 ! q) = patchOf (heap st1 ! q)"
        using refs_valid by (auto simp: s1 s2 cachedRefs_def nth_append)
    qed
    have no_r: "\<forall>r \<in> set (cachedRefs st). patchId (heap st ! r) \<noteq> patchId p"
      using False by (auto simp: cachedIds_member)
    show ?thesis
      using False twice content no_r ids1 ids2 assms(4) wf1 by (simp add: s1 s2)
  qed
qed

theorem refetchPatch_merge_by_id_witness:
  "wfStore exampleStore \<and> truthy (data (dataResult ''rad:z3gqcJUoA1n9''))
   \<and> cachedIds exampleStore = [''00ab12cd34'', ''ab12cd34ff'']
   \<and> cachedRefs exampleStore = [0, 1]
   \<and> patchId (heap exampleStore ! 0) = patchId (examplePatch ''00ab12cd34'' [exampleRevision 300])
   \<and> patches (snd (refetchPatch (dataResult ''rad:z3gqcJUoA1n9'') 2
          (dataResult (examplePatch ''00ab12cd34'' [exampleRevision 300])) exampleStore))
       = Some [0, 1]
   \<and> patchOf (heap (snd (refetchPatch (dataResult ''rad:z3gqcJUoA1n9'') 3
          (dataResult (examplePatch ''00ab12cd34'' [exampleRevision 300]))
          (snd (refetchPatch (dataResult ''rad:z3gqcJUoA1n9'') 2
            (dataResult (examplePatch ''00ab12cd34'' [exampleRevision 300])) exampleStore)))) ! 0)
       = examplePatch ''00ab12cd34'' [exampleRevision 300]
   \<and> patchLastFetchedTs (heap (snd (refetchPatch (dataResult ''rad:z3gqcJUoA1n9'') 3
          (dataResult (examplePatch ''00ab12cd34'' [exampleRevision 300]))
          (snd (refetchPatch (dataResult ''rad:z3gqcJUoA1n9'') 2
            (dataResult (examplePatch ''00ab12cd34'' [exampleRevision 300])) exampleStore)))) ! 0)
       = 3
   \<and> cachedIds (snd (refetchPatch (dataResult ''rad:z3gqcJUoA1n9'') 2
          (dataResult (examplePatch ''00ab12cd34'' [exampleRevision 300])) exampleStore))
       = [''00ab12cd34'', ''ab12cd34ff'']
   \<and> patches (snd (refetchPatch (dataResult ''rad:z3gqcJUoA1n9'') 2
          (dataResult (examplePatch ''7f00aa11bb'' [exampleRevision 300])) exampleStore))
       = Some [0, 1, 2]
   \<and> cachedIds (snd (refetchPatch (dataResult ''rad:z3gqcJUoA1n9'') 2
          (dataResult (examplePatch ''7f00aa11bb'' [exampleRevision 300])) exampleStore))
       = [''00ab12cd34'', ''ab12cd34ff'', ''7f00aa11bb'']"
proof -
  have wf: "wfStore exampleStore" by (simp add: wfStore_def exampleStore_def)
  have rid: "truthy (data (dataResult ''rad:z3gqcJUoA1n9''))"
    by (simp add: truthy_def dataResult_def)
  have ids: "cachedIds exampleStore = [''00ab12cd34'', ''ab12cd34ff'']"
    by (simp add: cachedIds_def exampleStore_def augment_def examplePatch_def)
  have dist: "distinct (cachedIds exampleStore)" by (simp add: ids)
  have refs: "cachedRefs exampleStore = [0, 1]" by (simp add: cachedRefs_def exampleStore_def)
  have len: "length (heap exampleStore) = 2" by (simp add: exampleStore_def)
  have old: "patches exampleStore = Some [0, 1]" by (simp add: exampleStore_def)
  have id0: "patchId (heap exampleStore ! 0)
      = patchId (examplePatch ''00ab12cd34'' [exampleRevision 300])"
    by (simp add: exampleStore_def augment_def examplePatch_def)
  have lens0: "\<forall>i \<in> set (cachedIds exampleStore).
      length i = length (patchId (examplePatch ''00ab12cd34'' [exampleRevision 300]))"
    by (simp add: ids examplePatch_def)
  have lens1: "\<forall>i \<in> set (cachedIds exampleStore).
      length i = length (patchId (examplePatch ''7f00aa11bb'' [exampleRevision 300]))"
    by (simp add: ids examplePatch_def)
  have in0: "0 \<in> set (cachedRefs exampleStore)" by (simp add: refs)
  have pid0: "patchId (examplePatch ''00ab12cd34'' [exampleRevision 300]) = ''00ab12cd34''"
    by (simp add: examplePatch_def)
  have pid1: "patchId (examplePatch ''7f00aa11bb'' [exampleRevision 300]) = ''7f00aa11bb''"
    by (simp add: examplePatch_def)
  note over = refetchPatch_merge_by_id [OF wf rid refl dist lens0 refl refl, of 3 2]
  note app = refetchPatch_merge_by_id [OF wf rid refl dist lens1 refl refl, of 3 2]
  note over_at =
    over [THEN conjunct2, THEN conjunct2, THEN conjunct2, THEN conjunct1, rule_format, OF in0 id0]
  note over_ids =
    over [THEN conjunct2, THEN conjunct2, THEN conjunct2, THEN conjunct2, THEN conjunct2,
          THEN conjunct1]
  note app_new =
    app [THEN conjunct2, THEN conjunct2, THEN conjunct2, THEN conjunct2, THEN conjunct1,
         rule_format]
  note app_ids =
    app [THEN conjunct2, THEN conjunct2, THEN conjunct2, THEN conjunct2, THEN conjunct2,
         THEN conjunct1]
  have a1: "patches (snd (refetchPatch (dataResult ''rad:z3gqcJUoA1n9'') 2
          (dataResult (examplePatch ''00ab12cd34'' [exampleRevision 300])) exampleStore))
       = Some [0, 1]"
    using over_at [THEN conjunct1] old by (rule trans)
  have a2: "patchOf (heap (snd (refetchPatch (dataResult ''rad:z3gqcJUoA1n9'') 3
          (dataResult (examplePatch ''00ab12cd34'' [exampleRevision 300]))
          (snd (refetchPatch (dataResult ''rad:z3gqcJUoA1n9'') 2
            (dataResult (examplePatch ''00ab12cd34'' [exampleRevision 300])) exampleStore)))) ! 0)
       = examplePatch ''00ab12cd34'' [exampleRevision 300]
     \<and> patchLastFetchedTs (heap (snd (refetchPatch (dataResult ''rad:z3gqcJUoA1n9'') 3
          (dataResult (examplePatch ''00ab12cd34'' [exampleRevision 300]))
          (snd (refetchPatch (dataResult ''rad:z3gqcJUoA1n9'') 2
            (dataResult (examplePatch ''00ab12cd34'' [exampleRevision 300])) exampleStore)))) ! 0)
       = 3"
    using over_at [THEN conjunct2, THEN conjunct2, THEN conjunct2, THEN conjunct2, THEN conjunct1]
      over_at [THEN conjunct2, THEN conjunct2, THEN conjunct2, THEN conjunct2, THEN conjunct2,
               THEN conjunct1]
    by (rule conjI)
  have in_ids: "patchId (examplePatch ''00ab12cd34'' [exampleRevision 300])
      \<in> set (cachedIds exampleStore)"
    by (simp add: ids pid0)
  have a3: "cachedIds (snd (refetchPatch (dataResult ''rad:z3gqcJUoA1n9'') 2
          (dataResult (examplePatch ''00ab12cd34'' [exampleRevision 300])) exampleStore))
       = [''00ab12cd34'', ''ab12cd34ff'']"
    using over_ids in_ids ids by (simp only: if_True)
  have absent: "patchId (examplePatch ''7f00aa11bb'' [exampleRevision 300])
      \<notin> set (cachedIds exampleStore)"
    by (simp add: ids pid1)
  have "patches (snd (refetchPatch (dataResult ''rad:z3gqcJUoA1n9'') 2
          (dataResult (examplePatch ''7f00aa11bb'' [exampleRevision 300])) exampleStore))
       = Some (cachedRefs exampleStore @ [length (heap exampleStore)])"
    using app_new [OF absent, THEN conjunct1] .
  then have b1: "patches (snd (refetchPatch (dataResult ''rad:z3gqcJUoA1n9'') 2
          (dataResult (examplePatch ''7f00aa11bb'' [exampleRevision 300])) exampleStore))
       = Some [0, 1, 2]"
    by (simp only: refs len) simp
  have b2: "cachedIds (snd (refetchPatch (dataResult ''rad:z3gqcJUoA1n9'') 2
          (dataResult (examplePatch ''7f00aa11bb'' [exampleRevision 300])) exampleStore))
       = [''00ab12cd34'', ''ab12cd34ff'', ''7f00aa11bb'']"
    using app_ids absent by (simp only: if_False ids pid1 append.simps)
  show ?thesis
    by (intro conjI) (fact wf rid ids refs id0 a1 a2 [THEN conjunct1] a2 [THEN conjunct2] a3 b1 b2)+
qed

end
